theory Spec2Isabelle
  imports Main
begin

section \<open>Values, errors and sentinel handlers\<close>

text \<open>
  Go's \<open>interface{}\<close> values, as far as the framework inspects them: a string, the
  \<open>Map\<close> (\<open>map[string]interface{}\<close>) and any other dynamic value, kept opaque.
\<close>

datatype iface = IString string | IMap "(string \<times> iface) list" | IOther nat

text \<open>Run-time panics of the Go program, as values.\<close>

datatype panic = NilPointerDereference | SliceBoundsOutOfRange | RegistrationPanic

text \<open>
  \<open>HTTPError\<close> of the source. \<open>Inner\<close> is the wrapped error, kept by its
  \<open>Error()\<close> text; \<open>None\<close> is Go's \<open>nil\<close>.
\<close>

record HTTPError =
  Code :: int
  Message :: iface
  Inner :: "string option"

text \<open>
  A non-nil value of Go's \<open>error\<close> interface: either a \<open>*HTTPError\<close> or any other
  error, which the framework only reads through \<open>Error()\<close>.
\<close>

datatype error = HTTP HTTPError | Plain string

text \<open>A pointer is \<open>None\<close> when nil; reading a field through it panics then.\<close>

definition deref :: "'a option \<Rightarrow> panic + 'a" where
  "deref p = (case p of None \<Rightarrow> Inl NilPointerDereference | Some v \<Rightarrow> Inr v)"

text \<open>
  \<open>NewHTTPError(code, message...)\<close>. The table \<open>http.StatusText\<close> belongs to Go's
  standard library and is the parameter \<open>StatusText\<close>.
\<close>

definition NewHTTPError :: "(int \<Rightarrow> string) \<Rightarrow> int \<Rightarrow> iface list \<Rightarrow> HTTPError" where
  "NewHTTPError StatusText code message =
     (let he = \<lparr>Code = code, Message = IString (StatusText code), Inner = None\<rparr>
      in if length message > 0 then he\<lparr>Message := message ! 0\<rparr> else he)"

definition StatusNotFound :: int where
  "StatusNotFound = 404"

definition StatusMethodNotAllowed :: int where
  "StatusMethodNotAllowed = 405"

definition StatusInternalServerError :: int where
  "StatusInternalServerError = 500"

definition ErrNotFound :: "(int \<Rightarrow> string) \<Rightarrow> HTTPError" where
  "ErrNotFound StatusText = NewHTTPError StatusText StatusNotFound []"

definition ErrMethodNotAllowed :: "(int \<Rightarrow> string) \<Rightarrow> HTTPError" where
  "ErrMethodNotAllowed StatusText = NewHTTPError StatusText StatusMethodNotAllowed []"

text \<open>
  A \<open>HandlerFunc\<close>: the two sentinel handlers of the source, or a handler of the
  application, identified by a value of \<open>'h\<close>.
\<close>

datatype 'h HandlerFunc = NotFoundHandler | MethodNotAllowedHandler | Handler 'h

text \<open>
  Calling a handler on a context gives its \<open>error\<close> result (\<open>None\<close> is nil). The sentinel
  handlers ignore the context; \<open>run\<close> interprets the application's handlers.
\<close>

fun call :: "(int \<Rightarrow> string) \<Rightarrow> ('h \<Rightarrow> 'c \<Rightarrow> error option) \<Rightarrow> 'h HandlerFunc \<Rightarrow> 'c \<Rightarrow> error option" where
  "call StatusText run NotFoundHandler c = Some (HTTP (ErrNotFound StatusText))"
| "call StatusText run MethodNotAllowedHandler c = Some (HTTP (ErrMethodNotAllowed StatusText))"
| "call StatusText run (Handler h) c = run h c"

section \<open>The request context\<close>

text \<open>
  A Go slice seen from its first element: \<open>elems\<close> are the \<open>len\<close> visible elements,
  \<open>spare\<close> the cells of the backing array between \<open>len\<close> and \<open>cap\<close>.
\<close>

datatype 'a slice = Slice (elems: "'a list") (spare: "'a list")

definition len :: "'a slice \<Rightarrow> nat" where
  "len s = length (elems s)"

definition cap :: "'a slice \<Rightarrow> nat" where
  "cap s = length (elems s) + length (spare s)"

text \<open>\<open>make([]T, n)\<close>: \<open>n\<close> zero values, capacity \<open>n\<close>.\<close>

definition make_slice :: "'a \<Rightarrow> nat \<Rightarrow> 'a slice" where
  "make_slice zero n = Slice (replicate n zero) []"

text \<open>The slice expression \<open>s[:n]\<close>: in range up to the capacity, a panic beyond it.\<close>

definition slice_to :: "'a slice \<Rightarrow> nat \<Rightarrow> panic + 'a slice" where
  "slice_to s n =
     (if n \<le> cap s then Inr (Slice (take n (elems s @ spare s)) (drop n (elems s @ spare s)))
      else Inl SliceBoundsOutOfRange)"

record Request =
  Method :: string
  URLPath :: string
  URLRawPath :: string

text \<open>
  The \<open>context\<close> struct (the type is named \<open>context_t\<close>: \<open>context\<close> is a
  keyword). \<open>'rs\<close> is the \<open>Response\<close> (declared outside the files at hand),
  \<open>'h\<close> the application's handlers. A nil map or pointer is \<open>None\<close>, a nil
  slice of names the empty list. The back pointer \<open>akita\<close> is not modelled.
\<close>

record ('rs, 'h) context_t =
  request :: "Request option"
  response :: 'rs
  path :: string
  pnames :: "string list"
  pvalues :: "string slice"
  query :: "(string \<times> string list) list option"
  handler :: "'h HandlerFunc"
  store :: "(string \<times> iface) list option"

text \<open>
  \<open>strings.Split(s, sep)\<close> of Go's standard library for a separator of one byte:
  the pieces between the separators, one piece more than there are separators.
\<close>

fun Split :: "string \<Rightarrow> char \<Rightarrow> string list" where
  "Split [] sep = [[]]"
| "Split (c # cs) sep =
     (if c = sep then [] # Split cs sep
      else (case Split cs sep of [] \<Rightarrow> [[c]] | p # ps \<Rightarrow> (c # p) # ps))"

text \<open>
  The loop of \<open>context.Param\<close> from index \<open>i\<close> on, over the names not yet visited.
\<close>

fun Param_from :: "nat \<Rightarrow> string list \<Rightarrow> string list \<Rightarrow> string \<Rightarrow> string" where
  "Param_from i [] vals name = []"
| "Param_from i (n # ns) vals name =
     (if i < length vals then
        (if n = name then vals ! i
         else if name \<in> set (Split n CHR '','') then vals ! i
         else Param_from (Suc i) ns vals name)
      else Param_from (Suc i) ns vals name)"

definition Param :: "('rs, 'h) context_t \<Rightarrow> string \<Rightarrow> string" where
  "Param ctx name = Param_from 0 (pnames ctx) (elems (pvalues ctx)) name"

definition ParamNames :: "('rs, 'h) context_t \<Rightarrow> string list" where
  "ParamNames ctx = pnames ctx"

definition SetParamNames :: "string list \<Rightarrow> ('rs, 'h) context_t \<Rightarrow> ('rs, 'h) context_t" where
  "SetParamNames names ctx = ctx\<lparr>pnames := names\<rparr>"

definition ParamValues :: "('rs, 'h) context_t \<Rightarrow> panic + string slice" where
  "ParamValues ctx = slice_to (pvalues ctx) (length (pnames ctx))"

definition SetParamValues :: "string slice \<Rightarrow> ('rs, 'h) context_t \<Rightarrow> ('rs, 'h) context_t" where
  "SetParamValues vals ctx = ctx\<lparr>pvalues := vals\<rparr>"

text \<open>
  \<open>context.Reset(r, w)\<close>. \<open>reset\<close> is \<open>Response.reset\<close>, declared outside the files
  at hand.
\<close>

definition Reset :: "('w \<Rightarrow> 'rs \<Rightarrow> 'rs) \<Rightarrow> Request option \<Rightarrow> 'w \<Rightarrow> ('rs, 'h) context_t \<Rightarrow> ('rs, 'h) context_t" where
  "Reset reset r w ctx =
     ctx\<lparr>request := r,
         response := reset w (response ctx),
         query := None,
         handler := NotFoundHandler,
         store := None,
         path := [],
         pnames := []\<rparr>"

text \<open>
  \<open>Akita.NewContext(r, w)\<close>; \<open>maxParam\<close> is \<open>*a.maxParam\<close> and \<open>NewResponse\<close> the
  constructor of the response (outside the files at hand), already applied to \<open>a\<close>.
\<close>

definition NewContext :: "('w \<Rightarrow> 'rs) \<Rightarrow> nat \<Rightarrow> Request option \<Rightarrow> 'w \<Rightarrow> ('rs, 'h) context_t" where
  "NewContext NewResponse maxParam r w =
     \<lparr>request = r,
      response = NewResponse w,
      path = [],
      pnames = [],
      pvalues = make_slice [] maxParam,
      query = None,
      handler = NotFoundHandler,
      store = Some []\<rparr>"

section \<open>The default error handler\<close>

text \<open>What the error handler sends: nothing, \<open>ctx.NoContent(code)\<close> or \<open>ctx.JSON(code, msg)\<close>.\<close>

datatype sent = NotSent | NoContent int | JSON int iface

text \<open>
  The first part of \<open>Akita.DefaultHTTPErrorHandler\<close>: status code and message. The type
  assertion \<open>he, ok := err.(*HTTPError)\<close> leaves \<open>he\<close> nil when it fails, and the
  \<open>Debug\<close> branch reads \<open>he.Inner\<close> through it.
\<close>

definition assert_HTTPError :: "error \<Rightarrow> HTTPError option \<times> bool" where
  "assert_HTTPError err = (case err of HTTP he \<Rightarrow> (Some he, True) | Plain s \<Rightarrow> (None, False))"

fun Error_text :: "(HTTPError \<Rightarrow> string) \<Rightarrow> error \<Rightarrow> string" where
  "Error_text fmt (HTTP he) = fmt he"
| "Error_text fmt (Plain s) = s"

definition code_and_msg :: "(int \<Rightarrow> string) \<Rightarrow> (HTTPError \<Rightarrow> string) \<Rightarrow> bool \<Rightarrow> error \<Rightarrow> panic + int \<times> iface" where
  "code_and_msg StatusText fmt Debug err =
     (let code = StatusInternalServerError; (he, ok) = assert_HTTPError err in
      (case (if ok then
               (case deref he of Inl p \<Rightarrow> Inl p
                | Inr h \<Rightarrow> Inr (Code h, Message h))
             else if Debug then
               (let msg = IString (Error_text fmt err) in
                case deref he of Inl p \<Rightarrow> Inl p
                | Inr h \<Rightarrow>
                    (case Inner h of
                       Some inner \<Rightarrow> Inr (code, IString (Error_text fmt err @ '', '' @ inner))
                     | None \<Rightarrow> Inr (code, msg)))
             else Inr (code, IString (StatusText code)))
       of Inl p \<Rightarrow> Inl p
        | Inr (code', msg) \<Rightarrow>
            Inr (code', case msg of IString s \<Rightarrow> IMap [(''message'', msg)] | _ \<Rightarrow> msg)))"

text \<open>
  The whole handler: after code and message, the response is sent unless it is committed
  already (\<open>committed\<close> reads \<open>Response.Committed\<close>). Logging is left out.
\<close>

definition HEAD :: string where
  "HEAD = ''HEAD''"

definition DefaultHTTPErrorHandler ::
  "(int \<Rightarrow> string) \<Rightarrow> (HTTPError \<Rightarrow> string) \<Rightarrow> ('rs \<Rightarrow> bool) \<Rightarrow> bool \<Rightarrow> error \<Rightarrow> ('rs, 'h) context_t \<Rightarrow> panic + sent" where
  "DefaultHTTPErrorHandler StatusText fmt committed Debug err ctx =
     (case code_and_msg StatusText fmt Debug err of
        Inl p \<Rightarrow> Inl p
      | Inr (code, msg) \<Rightarrow>
          if \<not> committed (response ctx) then
            (case deref (request ctx) of
               Inl p \<Rightarrow> Inl p
             | Inr rq \<Rightarrow> if Method rq = HEAD then Inr (NoContent code) else Inr (JSON code msg))
          else Inr NotSent)"

text \<open>
  The predicates in which the result of \<open>Param\<close> is stated: the recorded name \<open>n\<close>
  names the parameter \<open>name\<close>, and index \<open>i\<close> of the context binds \<open>name\<close>.
\<close>

definition names_param :: "string \<Rightarrow> string \<Rightarrow> bool" where
  "names_param n name = (n = name \<or> name \<in> set (Split n CHR '',''))"

definition binds_at :: "('rs, 'h) context_t \<Rightarrow> string \<Rightarrow> nat \<Rightarrow> bool" where
  "binds_at ctx name i =
     (i < length (pnames ctx) \<and> i < len (pvalues ctx) \<and> names_param (pnames ctx ! i) name)"

section \<open>The router\<close>

text \<open>
  The file of the router is not among the sources. Its data model and its two operations
  are modelled from the specification (sections 3 and 4), and every definition of this
  section says which sentences it follows.
\<close>

text \<open>Modelled from the spec: the router's node kinds \<open>static\<close>, \<open>param\<close> and \<open>any\<close>.\<close>

datatype kind = KStatic | KParam | KAny

text \<open>
  Modelled from the spec: the router's \<open>Node\<close>, "one edge-compressed segment of a
  registered path", with its fields \<open>prefix\<close>, \<open>kind\<close>, \<open>children\<close>, \<open>paramNames\<close>
  (the names collected from the root to this node) and \<open>handlers\<close> (from HTTP method to
  handler, for the path that ends at this node).
\<close>

datatype 'h node =
  Node (prefix: string) (kind: kind) (children: "'h node list")
       (paramNames: "string list") (handlers: "(string \<times> 'h) list")

text \<open>
  Modelled from the spec: the router's child selection. Static children are "keyed by
  their first byte"; "a node has at most one param child and at most one any child".
\<close>

definition starts :: "char \<Rightarrow> 'h node \<Rightarrow> bool" where
  "starts b c = (kind c = KStatic \<and> (case prefix c of [] \<Rightarrow> False | x # xs \<Rightarrow> x = b))"

text \<open>Modelled from the spec: the router's test for the kind of a child.\<close>

definition is_kind :: "kind \<Rightarrow> 'h node \<Rightarrow> bool" where
  "is_kind k c = (kind c = k)"

text \<open>Modelled from the spec: the router's static child "selected by next byte" of the input.\<close>

fun static_child :: "'h node \<Rightarrow> string \<Rightarrow> 'h node option" where
  "static_child n [] = None"
| "static_child n (b # inp) = find (starts b) (children n)"

text \<open>Modelled from the spec: the router's one param child, or one any child, of a node.\<close>

definition kind_child :: "kind \<Rightarrow> 'h node \<Rightarrow> 'h node option" where
  "kind_child k n = find (is_kind k) (children n)"

text \<open>Modelled from the spec: the router's replacement of a child in the ordered children.\<close>

fun replace_first :: "('a \<Rightarrow> bool) \<Rightarrow> 'a \<Rightarrow> 'a list \<Rightarrow> 'a list" where
  "replace_first P y [] = []"
| "replace_first P y (x # xs) = (if P x then y # xs else x # replace_first P y xs)"

text \<open>
  Modelled from the spec: the router's update of a child slot, "creating one if absent":
  the child selected by \<open>P\<close> is replaced, a new child comes last.
\<close>

definition set_child :: "('h node \<Rightarrow> bool) \<Rightarrow> 'h node \<Rightarrow> 'h node \<Rightarrow> 'h node" where
  "set_child P c n =
     Node (prefix n) (kind n)
       (case find P (children n) of
          None \<Rightarrow> children n @ [c]
        | Some old \<Rightarrow> replace_first P c (children n))
       (paramNames n) (handlers n)"

text \<open>Modelled from the spec: the router's \<open>handlers\<close> mapping, updated so that the last
  handler recorded for a method is the one kept ("last write wins").\<close>

fun put :: "'k \<Rightarrow> 'v \<Rightarrow> ('k \<times> 'v) list \<Rightarrow> ('k \<times> 'v) list" where
  "put k v [] = [(k, v)]"
| "put k v (e # es) = (if fst e = k then (k, v) # es else e # put k v es)"

text \<open>Modelled from the spec: the router's "longest common prefix between the remaining
  pattern and the current node's prefix".\<close>

fun lcp :: "string \<Rightarrow> string \<Rightarrow> string" where
  "lcp (x # xs) (y # ys) = (if x = y then x # lcp xs ys else [])"
| "lcp xs ys = []"

text \<open>
  Modelled from the spec: the router's insertion (4.1), the node to descend into for the
  next piece of the pattern. For a \<open>:name\<close> or \<open>*\<close> segment it is the param or any slot,
  new with the name appended to the parent's accumulated names ("each param/any segment
  appends its name ... relative to its parent's accumulated names"; the name of \<open>*\<close> is
  \<open>*\<close>). For a static piece \<open>s\<close> it is the child selected by the next byte: new with
  prefix \<open>s\<close> when absent; the child itself on a "full match of the current node's prefix";
  on a "partial match" the child split "at the divergence point", the new node below
  inheriting "the unmatched suffix and existing children".
\<close>

definition param_slot :: "'h node \<Rightarrow> string \<Rightarrow> 'h node" where
  "param_slot n name =
     (case kind_child KParam n of
        Some c \<Rightarrow> c
      | None \<Rightarrow> Node '':'' KParam [] (paramNames n @ [name]) [])"

text \<open>Modelled from the spec: the router's any slot of a node, as the param slot above.\<close>

definition any_slot :: "'h node \<Rightarrow> 'h node" where
  "any_slot n =
     (case kind_child KAny n of
        Some c \<Rightarrow> c
      | None \<Rightarrow> Node ''*'' KAny [] (paramNames n @ [''*'']) [])"

text \<open>Modelled from the spec: the router's static piece of a pattern, up to the next \<open>:\<close>
  or \<open>*\<close>.\<close>

definition static_run :: "string \<Rightarrow> string" where
  "static_run pat = takeWhile (\<lambda>c. c \<noteq> CHR '':'' \<and> c \<noteq> CHR ''*'') pat"

text \<open>Modelled from the spec: the router's static child to descend into: new, matched in
  full, or split at the divergence point, as said above.\<close>

definition static_slot :: "'h node \<Rightarrow> string \<Rightarrow> 'h node" where
  "static_slot n pat =
     (let s = static_run pat in
      case static_child n pat of
        None \<Rightarrow> Node s KStatic [] (paramNames n) []
      | Some c \<Rightarrow>
          (let l = lcp s (prefix c) in
           if l = prefix c then c
           else Node l KStatic
                  [Node (drop (length l) (prefix c)) KStatic (children c) (paramNames c) (handlers c)]
                  (paramNames n) []))"

text \<open>
  Modelled from the spec: the router's insertion (4.1), at a node whose prefix the
  pattern has matched in full, \<open>pat\<close> being what remains of the pattern. "Exact match,
  pattern exhausted: record the handler for this method at this node"; otherwise
  "recurse into the child selected by next byte (creating one if absent), or into the
  param/any slot if the next pattern segment begins with \<open>:\<close> or \<open>*\<close>". Registration is
  fatal when the slot holds "a different parameter name than the one being inserted",
  and when \<open>*\<close> is not the last byte of the pattern (section 7).
\<close>

function insert_at :: "string \<Rightarrow> 'h \<Rightarrow> string \<Rightarrow> 'h node \<Rightarrow> panic + 'h node" where
  "insert_at m h [] n =
     Inr (Node (prefix n) (kind n) (children n) (paramNames n) (put m h (handlers n)))"
| "insert_at m h (b # rest) n =
     (if b = CHR '':'' then
        (let name = takeWhile (\<lambda>c. c \<noteq> CHR ''/'') rest;
             c = param_slot n name
         in if paramNames c \<noteq> paramNames n @ [name] then Inl RegistrationPanic
            else (case insert_at m h (dropWhile (\<lambda>c. c \<noteq> CHR ''/'') rest) c of
                    Inl e \<Rightarrow> Inl e
                  | Inr c' \<Rightarrow> Inr (set_child (is_kind KParam) c' n)))
      else if b = CHR ''*'' then
        (let c = any_slot n
         in if rest \<noteq> [] \<or> paramNames c \<noteq> paramNames n @ [''*''] then Inl RegistrationPanic
            else (case insert_at m h [] c of
                    Inl e \<Rightarrow> Inl e
                  | Inr c' \<Rightarrow> Inr (set_child (is_kind KAny) c' n)))
      else
        (let c = static_slot n (b # rest)
         in case insert_at m h (drop (length (prefix c)) (b # rest)) c of
              Inl e \<Rightarrow> Inl e
            | Inr c' \<Rightarrow> Inr (set_child (starts b) c' n)))"
  by pat_completeness auto

lemma static_run_Cons:
  "b \<noteq> CHR '':'' \<Longrightarrow> b \<noteq> CHR ''*'' \<Longrightarrow> static_run (b # rest) = b # static_run rest"
  by (simp add: static_run_def)

lemma starts_prefix: "starts b c \<Longrightarrow> \<exists>t. prefix c = b # t"
  by (auto simp: starts_def split: list.splits)

lemma static_child_starts: "static_child n (b # rest) = Some c \<Longrightarrow> starts b c"
  by (auto simp: find_Some_iff)

lemma static_slot_prefix:
  assumes "b \<noteq> CHR '':''" "b \<noteq> CHR ''*''"
  shows "\<exists>t. prefix (static_slot n (b # rest)) = b # t"
proof (cases "static_child n (b # rest)")
  case None
  with assms show ?thesis by (simp add: static_slot_def static_run_Cons)
next
  case (Some c)
  then obtain t where t: "prefix c = b # t"
    using static_child_starts starts_prefix by blast
  show ?thesis
  proof (cases "lcp (static_run (b # rest)) (prefix c) = prefix c")
    case True
    with Some t show ?thesis by (simp add: static_slot_def Let_def)
  next
    case False
    with Some t assms show ?thesis by (simp add: static_slot_def Let_def static_run_Cons)
  qed
qed

termination insert_at
proof (relation "measure (\<lambda>(m, h, pat, n). length pat)", goal_cases)
  case 1
  then show ?case by simp
next
  case (2 m h b rest n name c)
  have "length (dropWhile (\<lambda>c. c \<noteq> CHR ''/'') rest) \<le> length rest"
    by (rule length_dropWhile_le)
  then show ?case by simp
next
  case (3 m h b rest n c)
  then show ?case by simp
next
  case (4 m h b rest n c)
  then obtain t where "prefix c = b # t"
    using static_slot_prefix by blast
  then show ?case by simp
qed

text \<open>
  Modelled from the spec: the router's lookup (4.2) below a node whose prefix the input
  has matched in full, \<open>inp\<close> being what remains of the path and \<open>vals\<close> the values
  captured so far. The walk ends at a node that \<open>ok\<close> accepts when the input is used up.
  Otherwise "a static match is attempted first by exact byte comparison of the node's
  prefix against the remaining input"; when that fails, or leads to no terminal match
  further down, the walk "backtracks to try the param child", which "captures the run of
  input characters up to (but not including) the next \<open>/\<close> or end-of-string", and then
  "backtracks again to the any child", which "captures all remaining input".
\<close>

function search ::
  "('h node \<Rightarrow> bool) \<Rightarrow> 'h node \<Rightarrow> string \<Rightarrow> string list \<Rightarrow> ('h node \<times> string list) option" where
  "search ok n inp vals =
     (if inp = [] \<and> ok n then Some (n, vals)
      else
        (case (case static_child n inp of
                 None \<Rightarrow> None
               | Some c \<Rightarrow>
                   if take (length (prefix c)) inp = prefix c
                   then search ok c (drop (length (prefix c)) inp) vals
                   else None) of
           Some r \<Rightarrow> Some r
         | None \<Rightarrow>
             (case (case kind_child KParam n of
                      None \<Rightarrow> None
                    | Some c \<Rightarrow>
                        search ok c (dropWhile (\<lambda>x. x \<noteq> CHR ''/'') inp)
                          (vals @ [takeWhile (\<lambda>x. x \<noteq> CHR ''/'') inp])) of
                Some r \<Rightarrow> Some r
              | None \<Rightarrow>
                  (case kind_child KAny n of
                     None \<Rightarrow> None
                   | Some c \<Rightarrow> search ok c [] (vals @ [inp])))))"
  by pat_completeness auto

lemma child_smaller: "c \<in> set (children n) \<Longrightarrow> size c < size n"
proof (cases n)
  case (Node p k cs ns hs)
  assume "c \<in> set (children n)"
  with Node have "c \<in> set cs" by simp
  then have "size c \<le> size_list size cs"
    by (induction cs) auto
  with Node show ?thesis by simp
qed

lemma find_in_set: "find P xs = Some x \<Longrightarrow> x \<in> set xs"
  by (auto simp: find_Some_iff)

lemma static_child_smaller: "static_child n inp = Some c \<Longrightarrow> size c < size n"
  by (cases inp) (auto dest: find_in_set child_smaller)

lemma kind_child_smaller: "kind_child k n = Some c \<Longrightarrow> size c < size n"
  by (auto simp: kind_child_def dest: find_in_set child_smaller)

termination search
  by (relation "measure (\<lambda>(ok, n, inp, vals). size n)")
    (auto dest: static_child_smaller kind_child_smaller)

declare search.simps [simp del]

text \<open>
  Modelled from the spec: the three outcomes of the router's lookup, "matched,
  method-not-allowed, not-found". A match carries the handler, the names recorded at the
  node and the captured values, "in the order their names were recorded".
\<close>

datatype 'h found = Matched 'h "string list" "string list" | MethodNotAllowed | NotFound

text \<open>Modelled from the spec: the router's tests on the node finally reached, "handler
  registered for the requested method" and "handlers exist for other methods".\<close>

definition has_handler :: "string \<Rightarrow> 'h node \<Rightarrow> bool" where
  "has_handler m n = (map_of (handlers n) m \<noteq> None)"

text \<open>Modelled from the spec: the router's test that a node has a handler for some method.\<close>

definition has_handlers :: "'h node \<Rightarrow> bool" where
  "has_handlers n = (handlers n \<noteq> [])"

text \<open>
  Modelled from the spec: the router's \<open>Find\<close> on the trie. The walk looks for a node with
  a handler for the method, unwinding on "no handler at the node finally reached, or the
  chosen method absent there"; when there is none, the path that "resolves to a node with
  no handler registered for the requested method but handlers ... for other methods" is
  "method not allowed", and "if no node matches the path at all, the result is not found".
\<close>

definition Find :: "'h node \<Rightarrow> string \<Rightarrow> string \<Rightarrow> 'h found" where
  "Find root method p =
     (case search (has_handler method) root p [] of
        Some (n, vals) \<Rightarrow>
          (case map_of (handlers n) method of
             Some h \<Rightarrow> Matched h (paramNames n) vals
           | None \<Rightarrow> NotFound)
      | None \<Rightarrow>
          (case search has_handlers root p [] of
             Some r \<Rightarrow> MethodNotAllowed
           | None \<Rightarrow> NotFound))"

text \<open>
  What the dispatch layer reads back after the lookup: the handler of the match, or one
  of the two sentinel handlers of the source.
\<close>

fun handler_of :: "'h found \<Rightarrow> 'h HandlerFunc" where
  "handler_of (Matched h ns vs) = Handler h"
| "handler_of MethodNotAllowed = MethodNotAllowedHandler"
| "handler_of NotFound = NotFoundHandler"

text \<open>
  Modelled from the spec: the router's walks below a node, without any order among them: from
  \<open>n\<close> with input \<open>inp\<close> and values \<open>vals\<close>, choosing at each branch point the
  kinds \<open>ks\<close> in turn, the walk uses up the input at the node \<open>n'\<close> with the values
  \<open>vals'\<close>. The lookup is stated against this relation.
\<close>

inductive reach :: "'h node \<Rightarrow> string \<Rightarrow> string list \<Rightarrow> kind list \<Rightarrow> 'h node \<Rightarrow> string list \<Rightarrow> bool" where
  stop: "reach n [] vals [] n vals"
| static: "static_child n inp = Some c \<Longrightarrow> take (length (prefix c)) inp = prefix c \<Longrightarrow>
     reach c (drop (length (prefix c)) inp) vals ks n' vals' \<Longrightarrow>
     reach n inp vals (KStatic # ks) n' vals'"
| param: "kind_child KParam n = Some c \<Longrightarrow>
     reach c (dropWhile (\<lambda>x. x \<noteq> CHR ''/'') inp) (vals @ [takeWhile (\<lambda>x. x \<noteq> CHR ''/'') inp]) ks n' vals' \<Longrightarrow>
     reach n inp vals (KParam # ks) n' vals'"
| any: "kind_child KAny n = Some c \<Longrightarrow> reach c [] (vals @ [inp]) ks n' vals' \<Longrightarrow>
     reach n inp vals (KAny # ks) n' vals'"

text \<open>
  Modelled from the spec: the router's order of the alternatives at a branch point,
  "static > param > any", and the
  order it induces on walks: \<open>before ks ks'\<close> when the walk \<open>ks\<close> ends where \<open>ks'\<close>
  goes on, or takes the earlier alternative at the first branch point where they differ.
\<close>

fun rank :: "kind \<Rightarrow> nat" where
  "rank KStatic = 0" | "rank KParam = 1" | "rank KAny = 2"

fun before :: "kind list \<Rightarrow> kind list \<Rightarrow> bool" where
  "before [] ks' = True"
| "before (k # ks) [] = False"
| "before (k # ks) (k' # ks') = (rank k < rank k' \<or> (k = k' \<and> before ks ks'))"

text \<open>Modelled from the spec: the router's three attempts at a node, those of \<open>search\<close>, by name.\<close>

definition try_static ::
  "('h node \<Rightarrow> bool) \<Rightarrow> 'h node \<Rightarrow> string \<Rightarrow> string list \<Rightarrow> ('h node \<times> string list) option" where
  "try_static ok n inp vals = (case static_child n inp of
                 None \<Rightarrow> None
               | Some c \<Rightarrow>
                   if take (length (prefix c)) inp = prefix c
                   then search ok c (drop (length (prefix c)) inp) vals
                   else None)"
definition try_param ::
  "('h node \<Rightarrow> bool) \<Rightarrow> 'h node \<Rightarrow> string \<Rightarrow> string list \<Rightarrow> ('h node \<times> string list) option" where
  "try_param ok n inp vals = (case kind_child KParam n of
                      None \<Rightarrow> None
                    | Some c \<Rightarrow>
                        search ok c (dropWhile (\<lambda>x. x \<noteq> CHR ''/'') inp)
                          (vals @ [takeWhile (\<lambda>x. x \<noteq> CHR ''/'') inp]))"
definition try_any ::
  "('h node \<Rightarrow> bool) \<Rightarrow> 'h node \<Rightarrow> string \<Rightarrow> string list \<Rightarrow> ('h node \<times> string list) option" where
  "try_any ok n inp vals = (case kind_child KAny n of
                     None \<Rightarrow> None
                   | Some c \<Rightarrow> search ok c [] (vals @ [inp]))"

section \<open>Route records and registration\<close>

text \<open>The \<open>Route\<close> struct of the source.\<close>

record Route =
  Method :: string
  Path :: string
  Name :: string

text \<open>
  The \<open>Router\<close> as the source uses it: the trie (modelled above) and the map \<open>routes\<close>
  from \<open>method + path\<close> to the route record.
\<close>

record 'h Router =
  tree :: "'h node"
  routes :: "string \<rightharpoonup> Route"

text \<open>Modelled from the spec: the empty router, a root node with the empty prefix.\<close>

definition NewRouter :: "'h Router" where
  "NewRouter = \<lparr>tree = Node [] KStatic [] [] [], routes = Map.empty\<rparr>"

text \<open>Modelled from the spec: the router's \<open>Add(method, path, handlerRef)\<close> and \<open>Find\<close>.\<close>

definition Router_Add :: "string \<Rightarrow> string \<Rightarrow> 'h \<Rightarrow> 'h Router \<Rightarrow> panic + 'h Router" where
  "Router_Add method p h r =
     (case insert_at method h p (tree r) of
        Inl e \<Rightarrow> Inl e
      | Inr t \<Rightarrow> Inr (r\<lparr>tree := t\<rparr>))"

definition Router_Find :: "'h Router \<Rightarrow> string \<Rightarrow> string \<Rightarrow> 'h found" where
  "Router_Find r method p = Find (tree r) method p"

text \<open>
  The handler that \<open>Akita.Add\<close> hands to the router: the middleware chained around the
  handler, last middleware innermost.
\<close>

definition chain :: "'h \<Rightarrow> ('h \<Rightarrow> 'h) list \<Rightarrow> 'h" where
  "chain h middleware = foldr (\<lambda>m g. m g) middleware h"

text \<open>
  \<open>Akita.Add(method, path, handler, middleware...)\<close> on the router of the instance. The
  name of a handler comes from Go's reflection and is the parameter \<open>handlerName\<close>. A
  panic of the router's \<open>Add\<close> ends the call.
\<close>

definition Akita_Add ::
  "('h \<Rightarrow> string) \<Rightarrow> string \<Rightarrow> string \<Rightarrow> 'h \<Rightarrow> ('h \<Rightarrow> 'h) list \<Rightarrow> 'h Router \<Rightarrow> panic + Route \<times> 'h Router" where
  "Akita_Add handlerName method p h middleware rt =
     (let name = handlerName h in
      case Router_Add method p (chain h middleware) rt of
        Inl e \<Rightarrow> Inl e
      | Inr rt' \<Rightarrow>
          (let r = \<lparr>Method = method, Path = p, Name = name\<rparr>
           in Inr (r, rt'\<lparr>routes := (routes rt')(method @ p \<mapsto> r)\<rparr>)))"

definition CONNECT :: string where "CONNECT = ''CONNECT''"
definition DELETE :: string where "DELETE = ''DELETE''"
definition GET :: string where "GET = ''GET''"
definition OPTIONS :: string where "OPTIONS = ''OPTIONS''"
definition PATCH :: string where "PATCH = ''PATCH''"
definition POST :: string where "POST = ''POST''"
definition PUT :: string where "PUT = ''PUT''"
definition TRACE :: string where "TRACE = ''TRACE''"

definition methods :: "string list" where
  "methods = [CONNECT, DELETE, GET, HEAD, OPTIONS, PATCH, POST, PUT, TRACE]"

text \<open>
  The loop of \<open>Akita.Any\<close> and \<open>Akita.Match\<close>: one \<open>Add\<close> for each method in turn, its
  route appended to \<open>rs\<close>.
\<close>

fun add_each ::
  "('h \<Rightarrow> string) \<Rightarrow> string list \<Rightarrow> string \<Rightarrow> 'h \<Rightarrow> ('h \<Rightarrow> 'h) list \<Rightarrow> Route list \<Rightarrow> 'h Router
     \<Rightarrow> panic + Route list \<times> 'h Router" where
  "add_each handlerName [] p h middleware rs rt = Inr (rs, rt)"
| "add_each handlerName (m # ms) p h middleware rs rt =
     (case Akita_Add handlerName m p h middleware rt of
        Inl e \<Rightarrow> Inl e
      | Inr (r, rt') \<Rightarrow> add_each handlerName ms p h middleware (rs @ [r]) rt')"

definition Akita_Any ::
  "('h \<Rightarrow> string) \<Rightarrow> string \<Rightarrow> 'h \<Rightarrow> ('h \<Rightarrow> 'h) list \<Rightarrow> 'h Router \<Rightarrow> panic + Route list \<times> 'h Router" where
  "Akita_Any handlerName p h middleware rt = add_each handlerName methods p h middleware [] rt"

definition Akita_Match ::
  "('h \<Rightarrow> string) \<Rightarrow> string list \<Rightarrow> string \<Rightarrow> 'h \<Rightarrow> ('h \<Rightarrow> 'h) list \<Rightarrow> 'h Router
     \<Rightarrow> panic + Route list \<times> 'h Router" where
  "Akita_Match handlerName ms p h middleware rt = add_each handlerName ms p h middleware [] rt"

section \<open>Reverse routing\<close>

text \<open>
  The inner loop of \<open>Akita.Reverse\<close> over the bytes of \<open>r.Path\<close> that are still to be
  read, \<open>ps\<close> being the parameters from index \<open>n\<close> on (so \<open>n < ln\<close> says that \<open>ps\<close> is
  not empty). \<open>sprint\<close> is \<open>fmt.Sprintf("%v", _)\<close>.
\<close>

function write_uri :: "('v \<Rightarrow> string) \<Rightarrow> string \<Rightarrow> 'v list \<Rightarrow> string" where
  "write_uri sprint [] ps = []"
| "write_uri sprint (c # cs) ps =
     (if c = CHR '':'' \<and> ps \<noteq> [] then
        sprint (hd ps) @
          (case dropWhile (\<lambda>x. x \<noteq> CHR ''/'') (c # cs) of
             [] \<Rightarrow> []
           | d # ds \<Rightarrow> d # write_uri sprint ds (tl ps))
      else c # write_uri sprint cs ps)"
  by pat_completeness auto

lemma dropWhile_shorter: "dropWhile P xs = d # ds \<Longrightarrow> length ds < length xs"
proof -
  assume h: "dropWhile P xs = d # ds"
  have "length (dropWhile P xs) \<le> length xs" by (rule length_dropWhile_le)
  with h show ?thesis by simp
qed

termination write_uri
proof (relation "measure (\<lambda>(sprint, p, ps). length p)", goal_cases)
  case 1
  then show ?case by simp
next
  case (2 sprint c cs ps d ds)
  from "2"(2) have "length ds < length (c # cs)" by (rule dropWhile_shorter)
  then show ?case by simp
next
  case (3 sprint c cs ps)
  then show ?case by simp
qed

text \<open>
  \<open>Akita.Reverse(name, params...)\<close>. The source ranges over the map \<open>a.router.routes\<close>,
  in an order that Go leaves open: \<open>rs\<close> are the route records in the order in which this
  run of the range statement yields them.
\<close>

definition Reverse :: "('v \<Rightarrow> string) \<Rightarrow> Route list \<Rightarrow> string \<Rightarrow> 'v list \<Rightarrow> string" where
  "Reverse sprint rs name params =
     (case find (\<lambda>r. Name r = name) rs of
        None \<Rightarrow> []
      | Some r \<Rightarrow> write_uri sprint (Path r) params)"

text \<open>A range over the route records of a router yields each record of the map.\<close>

definition yields :: "'h Router \<Rightarrow> Route list \<Rightarrow> bool" where
  "yields rt rs = (set rs = ran (routes rt))"

text \<open>
  The statement of reverse routing in the words of its description: a pattern is a
  sequence of literal bytes and \<open>:name\<close> segments, each running up to the next \<open>/\<close>; the
  first segments are replaced by the values supplied, every other piece is written as it
  stands.
\<close>

datatype piece = Lit char | Par string

function pieces :: "string \<Rightarrow> piece list" where
  "pieces [] = []"
| "pieces (c # cs) =
     (if c = CHR '':''
      then Par (takeWhile (\<lambda>x. x \<noteq> CHR ''/'') cs) # pieces (dropWhile (\<lambda>x. x \<noteq> CHR ''/'') cs)
      else Lit c # pieces cs)"
  by pat_completeness auto

termination pieces
proof (relation "measure length", goal_cases)
  case 1
  then show ?case by simp
next
  case (2 c cs)
  have "length (dropWhile (\<lambda>x. x \<noteq> CHR ''/'') cs) \<le> length cs" by (rule length_dropWhile_le)
  then show ?case by simp
next
  case (3 c cs)
  then show ?case by simp
qed

fun fill :: "('v \<Rightarrow> string) \<Rightarrow> piece list \<Rightarrow> 'v list \<Rightarrow> string" where
  "fill sprint [] vs = []"
| "fill sprint (Lit c # ts) vs = c # fill sprint ts vs"
| "fill sprint (Par n # ts) [] = CHR '':'' # n @ fill sprint ts []"
| "fill sprint (Par n # ts) (v # vs) = sprint v @ fill sprint ts vs"

section \<open>Static files\<close>

text \<open>
  \<open>PathUnescape\<close> of \<open>util_go18.go\<close>, the variant built with Go 1.8 and later, wraps
  \<open>url.PathUnescape\<close> of Go's standard library: each \<open>%\<close> must be
  followed by two hexadecimal digits and stands for the byte they denote; every other
  byte stands for itself. An invalid escape is an error.
\<close>

definition ishex :: "char \<Rightarrow> bool" where
  "ishex c =
     (let n = (of_char c :: nat)
      in (48 \<le> n \<and> n \<le> 57) \<or> (97 \<le> n \<and> n \<le> 102) \<or> (65 \<le> n \<and> n \<le> 70))"

definition unhex :: "char \<Rightarrow> nat" where
  "unhex c =
     (let n = (of_char c :: nat)
      in if 48 \<le> n \<and> n \<le> 57 then n - 48
         else if 97 \<le> n \<and> n \<le> 102 then n - 97 + 10
         else if 65 \<le> n \<and> n \<le> 70 then n - 65 + 10
         else 0)"

fun PathUnescape :: "string \<Rightarrow> error + string" where
  "PathUnescape [] = Inr []"
| "PathUnescape (c # cs) =
     (if c = CHR ''%'' then
        (case cs of
           a # b # rest \<Rightarrow>
             if ishex a \<and> ishex b then
               (case PathUnescape rest of
                  Inl e \<Rightarrow> Inl e
                | Inr s \<Rightarrow> Inr (char_of (unhex a * 16 + unhex b) # s))
             else Inl (Plain ''invalid URL escape'')
         | _ \<Rightarrow> Inl (Plain ''invalid URL escape''))
      else
        (case PathUnescape cs of
           Inl e \<Rightarrow> Inl e
         | Inr s \<Rightarrow> Inr (c # s)))"

text \<open>
  \<open>path.Clean\<close> of Go's standard library. \<open>out\<close> is the buffer written so far and
  \<open>dotdot\<close> the index in it where a \<open>..\<close> element must stop, the input being the bytes
  from index \<open>r\<close> on. \<open>back_to\<close> is the inner loop of the \<open>..\<close> case, which moves \<open>w\<close>
  down to the last \<open>/\<close>, and no further than \<open>dotdot\<close>.
\<close>

definition ends_or_slash :: "string \<Rightarrow> bool" where
  "ends_or_slash cs = (case cs of [] \<Rightarrow> True | d # ds \<Rightarrow> d = CHR ''/'')"

definition dot_element :: "char \<Rightarrow> string \<Rightarrow> bool" where
  "dot_element c cs = (c = CHR ''.'' \<and> ends_or_slash cs)"

definition dotdot_element :: "char \<Rightarrow> string \<Rightarrow> bool" where
  "dotdot_element c cs =
     (c = CHR ''.'' \<and> (case cs of [] \<Rightarrow> False | d # ds \<Rightarrow> d = CHR ''.'' \<and> ends_or_slash ds))"

fun back_to :: "string \<Rightarrow> nat \<Rightarrow> nat \<Rightarrow> nat" where
  "back_to out dotdot 0 = 0"
| "back_to out dotdot (Suc w) =
     (if Suc w > dotdot \<and> out ! Suc w \<noteq> CHR ''/'' then back_to out dotdot w else Suc w)"

function clean_loop :: "bool \<Rightarrow> string \<Rightarrow> string \<Rightarrow> nat \<Rightarrow> string \<times> nat" where
  "clean_loop rooted [] out dotdot = (out, dotdot)"
| "clean_loop rooted (c # cs) out dotdot =
     (if c = CHR ''/'' then clean_loop rooted cs out dotdot
      else if dot_element c cs then clean_loop rooted cs out dotdot
      else if dotdot_element c cs then
        (if length out > dotdot then
           clean_loop rooted (tl cs) (take (back_to out dotdot (length out - 1)) out) dotdot
         else if \<not> rooted then
           (let out' = (if length out > 0 then out @ ''/'' else out) @ ''..''
            in clean_loop rooted (tl cs) out' (length out'))
         else clean_loop rooted (tl cs) out dotdot)
      else
        (let out' = (if rooted \<and> length out \<noteq> 1 \<or> \<not> rooted \<and> length out \<noteq> 0
                     then out @ ''/'' else out)
         in clean_loop rooted (dropWhile (\<lambda>x. x \<noteq> CHR ''/'') cs)
              (out' @ c # takeWhile (\<lambda>x. x \<noteq> CHR ''/'') cs) dotdot))"
  by pat_completeness auto

termination clean_loop
proof (relation "measure (\<lambda>(rooted, inp, out, dotdot). length inp)", goal_cases)
  case 1
  then show ?case by simp
next
  case (2 rooted c cs out dotdot)
  then show ?case by simp
next
  case (3 rooted c cs out dotdot)
  then show ?case by simp
next
  case (4 rooted c cs out dotdot)
  then show ?case by (cases cs) simp_all
next
  case (5 rooted c cs out dotdot)
  then show ?case by (cases cs) simp_all
next
  case (6 rooted c cs out dotdot)
  then show ?case by (cases cs) simp_all
next
  case (7 rooted c cs out dotdot)
  have "length (dropWhile (\<lambda>x. x \<noteq> CHR ''/'') cs) \<le> length cs" by (rule length_dropWhile_le)
  then show ?case by simp
qed

definition Clean :: "string \<Rightarrow> string" where
  "Clean p =
     (case p of
        [] \<Rightarrow> ''.''
      | c # cs \<Rightarrow>
          (let rooted = (c = CHR ''/'');
               (out, dotdot) = (if rooted then clean_loop rooted cs ''/'' 1
                                else clean_loop rooted (c # cs) [] 0)
           in if length out = 0 then ''.'' else out))"

text \<open>
  Package \<open>filepath\<close> of Go's standard library depends on the operating system the
  program is built for. What follows is its build for Unix (\<open>path_unix.go\<close>), where
  \<open>Separator\<close> is \<open>/\<close> and no other byte separates path elements. In the build for
  Windows the separator is the backslash, \<open>/\<close> separates as well, and a path may start
  with a volume name; that build is not part of this development, and every statement
  about \<open>Join\<close> below is a statement about the program built for Unix.
\<close>

definition Separator :: char where
  "Separator = CHR ''/''"

text \<open>
  \<open>filepath.Join\<close> in that build: the elements from the first non-empty one on, joined
  by \<open>Separator\<close> and cleaned; \<open>filepath.Clean\<close> is \<open>path.Clean\<close> there.
\<close>

fun strings_Join :: "string list \<Rightarrow> string \<Rightarrow> string" where
  "strings_Join [] sep = []"
| "strings_Join [e] sep = e"
| "strings_Join (e # es) sep = e @ sep @ strings_Join es sep"

definition Join :: "string list \<Rightarrow> string" where
  "Join elem =
     (case dropWhile (\<lambda>e. e = []) elem of
        [] \<Rightarrow> []
      | es \<Rightarrow> Clean (strings_Join es [Separator]))"

text \<open>
  The handler \<open>h\<close> that \<open>static(i, prefix, root)\<close> installs. Its result is the error it
  returns from \<open>PathUnescape\<close>, or the name it passes to \<open>Context.File\<close>.
\<close>

definition static_h :: "string \<Rightarrow> ('rs, 'h) context_t \<Rightarrow> error + string" where
  "static_h root c =
     (case PathUnescape (Param c ''*'') of
        Inl err \<Rightarrow> Inl err
      | Inr p \<Rightarrow> Inr (Join [root, Clean (''/'' @ p)]))"

text \<open>
  The statement of staying within a directory, where \<open>/\<close> is the only separator: a
  plain path element is not empty, has no \<open>/\<close> and is neither \<open>.\<close> nor \<open>..\<close>, and
  \<open>under dir cs\<close> is the path that descends from the cleaned directory \<open>dir\<close> through
  the elements \<open>cs\<close>.
\<close>

definition plain :: "string \<Rightarrow> bool" where
  "plain c = (c \<noteq> [] \<and> CHR ''/'' \<notin> set c \<and> c \<noteq> ''.'' \<and> c \<noteq> ''..'')"



definition dots :: "nat \<Rightarrow> string list" where
  "dots k = replicate k ''..''"



section \<open>Properties of the request context\<close>

lemma Param_from_hit:
  "i < length ns \<Longrightarrow> k + i < length vals \<Longrightarrow> names_param (ns ! i) name \<Longrightarrow>
   \<forall>j<i. \<not> names_param (ns ! j) name \<Longrightarrow>
   Param_from k ns vals name = vals ! (k + i)"
proof (induction ns arbitrary: k i)
  case Nil
  then show ?case by simp
next
  case (Cons n ns)
  show ?case
  proof (cases i)
    case 0
    with Cons.prems show ?thesis by (auto simp: names_param_def)
  next
    case (Suc i')
    from Cons.prems Suc have n0: "\<not> names_param n name" by auto
    from Cons.prems Suc have rest: "\<forall>j<i'. \<not> names_param (ns ! j) name" by auto
    from Cons.prems Suc have "Param_from (Suc k) ns vals name = vals ! (Suc k + i')"
      by (intro Cons.IH rest) auto
    with n0 Suc show ?thesis by (simp add: names_param_def)
  qed
qed

lemma Param_from_miss:
  "\<forall>j<length ns. \<not> (k + j < length vals \<and> names_param (ns ! j) name) \<Longrightarrow>
   Param_from k ns vals name = []"
proof (induction ns arbitrary: k)
  case Nil
  then show ?case by simp
next
  case (Cons n ns)
  from Cons.prems have h0: "\<not> (k < length vals \<and> names_param n name)" by force
  have "\<forall>j<length ns. \<not> (Suc k + j < length vals \<and> names_param (ns ! j) name)"
  proof (intro allI impI)
    fix j assume "j < length ns"
    with Cons.prems have "\<not> (k + Suc j < length vals \<and> names_param ((n # ns) ! Suc j) name)"
      by (metis length_Cons Suc_less_eq)
    then show "\<not> (Suc k + j < length vals \<and> names_param (ns ! j) name)" by simp
  qed
  then have "Param_from (Suc k) ns vals name = []" by (rule Cons.IH)
  with h0 show ?case by (auto simp: names_param_def)
qed

text \<open>
  C4. \<open>Param(name)\<close> returns \<open>pvalues[i]\<close> for the smallest index \<open>i\<close> below
  \<open>len(pvalues)\<close> whose recorded name is \<open>name\<close> or has \<open>name\<close> among its
  comma-separated components, and the empty string when there is no such index: values
  are bound by position, in the order in which the names were recorded.
\<close>

theorem Param_first_binding:
  "(binds_at ctx name i \<and> (\<forall>j<i. \<not> binds_at ctx name j)
      \<longrightarrow> Param ctx name = elems (pvalues ctx) ! i) \<and>
   ((\<forall>i. \<not> binds_at ctx name i) \<longrightarrow> Param ctx name = [])"
proof (intro conjI impI)
  assume h: "binds_at ctx name i \<and> (\<forall>j<i. \<not> binds_at ctx name j)"
  then have i: "i < length (pnames ctx)" "i < length (elems (pvalues ctx))"
    "names_param (pnames ctx ! i) name"
    by (auto simp: binds_at_def len_def)
  have "\<forall>j<i. \<not> names_param (pnames ctx ! j) name"
  proof (intro allI impI)
    fix j assume "j < i"
    with h i show "\<not> names_param (pnames ctx ! j) name"
      by (auto simp: binds_at_def len_def)
  qed
  with i have "Param_from 0 (pnames ctx) (elems (pvalues ctx)) name = elems (pvalues ctx) ! (0 + i)"
    by (intro Param_from_hit) auto
  then show "Param ctx name = elems (pvalues ctx) ! i" by (simp add: Param_def)
next
  assume "\<forall>i. \<not> binds_at ctx name i"
  then have "\<forall>j<length (pnames ctx).
      \<not> (0 + j < length (elems (pvalues ctx)) \<and> names_param (pnames ctx ! j) name)"
    by (auto simp: binds_at_def len_def)
  then have "Param_from 0 (pnames ctx) (elems (pvalues ctx)) name = []"
    by (rule Param_from_miss)
  then show "Param ctx name = []" by (simp add: Param_def)
qed

text \<open>
  The theorem at a context with three names and two values: \<open>b\<close> is an alias recorded at
  index 1, and the name \<open>late\<close> at index 2 has no value.
\<close>

theorem Param_first_binding_witness:
  "Param \<lparr>request = None, response = (), path = ''/users/:id/files/:a,b'',
          pnames = [''id'', ''a,b'', ''late''], pvalues = Slice [''42'', ''x''] [''old''],
          query = None, handler = (NotFoundHandler :: unit HandlerFunc), store = None\<rparr> ''b'' = ''x'' \<and>
   Param \<lparr>request = None, response = (), path = ''/users/:id/files/:a,b'',
          pnames = [''id'', ''a,b'', ''late''], pvalues = Slice [''42'', ''x''] [''old''],
          query = None, handler = (NotFoundHandler :: unit HandlerFunc), store = None\<rparr> ''late'' = []"
proof -
  let ?c = "\<lparr>request = None, response = (), path = ''/users/:id/files/:a,b'',
          pnames = [''id'', ''a,b'', ''late''], pvalues = Slice [''42'', ''x''] [''old''],
          query = None, handler = (NotFoundHandler :: unit HandlerFunc), store = None\<rparr>"
  have b: "binds_at ?c ''b'' 1 \<and> (\<forall>j<1. \<not> binds_at ?c ''b'' j)"
    by (simp add: binds_at_def len_def names_param_def)
  have "\<not> binds_at ?c ''late'' i" for i
  proof (cases "i < 2")
    case True
    then have "i = 0 \<or> i = 1" by auto
    then show ?thesis by (auto simp: binds_at_def len_def names_param_def)
  next
    case False
    then show ?thesis by (simp add: binds_at_def len_def)
  qed
  then have l: "\<forall>i. \<not> binds_at ?c ''late'' i" by blast
  from Param_first_binding [of ?c "''b''" 1] b
  have "Param ?c ''b'' = elems (pvalues ?c) ! 1" by blast
  moreover from Param_first_binding [of ?c "''late''" 0] l
  have "Param ?c ''late'' = []" by blast
  ultimately show ?thesis by simp
qed

text \<open>
  C7. \<open>Reset(r, w)\<close> clears the fields of the request: \<open>query\<close>, \<open>store\<close>, \<open>path\<close> and
  \<open>pnames\<close> are emptied and \<open>handler\<close> is \<open>NotFoundHandler\<close> again, while the slice
  \<open>pvalues\<close> stays as it is, in length and in contents.
\<close>

theorem Reset_keeps_pvalues:
  "query (Reset reset r w ctx) = None \<and>
   store (Reset reset r w ctx) = None \<and>
   path (Reset reset r w ctx) = [] \<and>
   pnames (Reset reset r w ctx) = [] \<and>
   handler (Reset reset r w ctx) = NotFoundHandler \<and>
   pvalues (Reset reset r w ctx) = pvalues ctx \<and>
   len (pvalues (Reset reset r w ctx)) = len (pvalues ctx) \<and>
   elems (pvalues (Reset reset r w ctx)) = elems (pvalues ctx)"
  by (simp add: Reset_def)

text \<open>
  C9. \<open>ParamValues()\<close> returns the first \<open>len(pnames)\<close> elements of \<open>pvalues\<close> when
  \<open>len(pnames) \<le> len(pvalues)\<close>. The precondition is genuine: a context of \<open>NewContext\<close>
  has \<open>pvalues\<close> of length and capacity \<open>maxParam\<close>, \<open>SetParamNames\<close> leaves it alone, and
  with more names than that the slice expression is out of range and the call panics.
\<close>

theorem ParamValues_prefix_or_panic:
  "(length (pnames ctx) \<le> len (pvalues ctx) \<longrightarrow>
      (\<exists>s. ParamValues ctx = Inr s \<and> elems s = take (length (pnames ctx)) (elems (pvalues ctx)))) \<and>
   (maxParam < length names \<longrightarrow>
      ParamValues (SetParamNames names (NewContext NewResponse maxParam r w)) =
        Inl SliceBoundsOutOfRange)"
  by (simp add: ParamValues_def slice_to_def cap_def len_def SetParamNames_def NewContext_def
      make_slice_def)

theorem ParamValues_prefix_or_panic_witness:
  "(\<exists>s. ParamValues \<lparr>request = None, response = (), path = ''/users/:id'',
           pnames = [''id''], pvalues = Slice [''42'', ''x''] [],
           query = None, handler = (NotFoundHandler :: unit HandlerFunc), store = None\<rparr> = Inr s
        \<and> elems s = [''42'']) \<and>
   ParamValues (SetParamNames [''uid'', ''fid'']
       (NewContext (\<lambda>w. ()) 1 None () :: (unit, unit) context_t)) = Inl SliceBoundsOutOfRange"
  using ParamValues_prefix_or_panic
    [of "\<lparr>request = None, response = (), path = ''/users/:id'',
           pnames = [''id''], pvalues = Slice [''42'', ''x''] [],
           query = None, handler = (NotFoundHandler :: unit HandlerFunc), store = None\<rparr>"
        1 "[''uid'', ''fid'']" "\<lambda>w. ()" None "()"]
  by (simp add: len_def)

section \<open>Properties of the default error handler\<close>

text \<open>
  C8. \<open>DefaultHTTPErrorHandler\<close> is claimed to complete without a panic for every error,
  context and \<open>Debug\<close> setting. With \<open>Debug\<close> on and an error that is not a
  \<open>*HTTPError\<close> the source reads \<open>he.Inner\<close> through the nil pointer that the failed type
  assertion left in \<open>he\<close>, and panics, whatever the context and the error's text.
\<close>

theorem DefaultHTTPErrorHandler_Debug_panics:
  "DefaultHTTPErrorHandler StatusText fmt committed True (Plain s) ctx = Inl NilPointerDereference"
  by (simp add: DefaultHTTPErrorHandler_def code_and_msg_def assert_HTTPError_def deref_def)

section \<open>Properties of registration\<close>

lemma set_child_sel [simp]:
  "prefix (set_child P c n) = prefix n" "kind (set_child P c n) = kind n"
  "paramNames (set_child P c n) = paramNames n" "handlers (set_child P c n) = handlers n"
  by (simp_all add: set_child_def)

lemma insert_at_keeps:
  assumes "insert_at m h pat n = Inr n'"
  shows "prefix n' = prefix n \<and> kind n' = kind n \<and> paramNames n' = paramNames n"
proof (cases pat)
  case Nil
  with assms show ?thesis by auto
next
  case (Cons b rest)
  with assms show ?thesis
    by (auto simp: Let_def split: if_splits sum.splits)
qed

lemma find_replace_first: "P y \<Longrightarrow> find P xs = Some x \<Longrightarrow> find P (replace_first P y xs) = Some y"
  by (induction xs) auto

lemma find_snoc_new: "P y \<Longrightarrow> find P xs = None \<Longrightarrow> find P (xs @ [y]) = Some y"
  by (induction xs) auto

lemma find_set_child: "P c \<Longrightarrow> find P (children (set_child P c n)) = Some c"
  by (cases "find P (children n)") (auto simp: set_child_def find_replace_first find_snoc_new)

lemma replace_first_twice: "P y \<Longrightarrow> replace_first P z (replace_first P y xs) = replace_first P z xs"
  by (induction xs) auto

lemma replace_first_snoc: "P y \<Longrightarrow> find P xs = None \<Longrightarrow> replace_first P z (xs @ [y]) = xs @ [z]"
  by (induction xs) auto

lemma set_child_twice: "P c \<Longrightarrow> set_child P d (set_child P c n) = set_child P d n"
proof (cases "find P (children n)")
  case None
  assume "P c"
  with None show ?thesis
    by (simp add: set_child_def find_snoc_new replace_first_snoc)
next
  case (Some x)
  assume "P c"
  with Some show ?thesis
    by (simp add: set_child_def find_replace_first replace_first_twice)
qed

lemma put_twice: "put k v (put k w es) = put k v es"
  by (induction es) auto

lemma param_slot_kind: "is_kind KParam (param_slot n name)"
  by (auto simp: param_slot_def kind_child_def is_kind_def find_Some_iff split: option.splits)

lemma any_slot_kind: "is_kind KAny (any_slot n)"
  by (auto simp: any_slot_def kind_child_def is_kind_def find_Some_iff split: option.splits)

lemma lcp_idem: "lcp s (lcp s x) = lcp s x"
  by (induction s x rule: lcp.induct) auto

lemma lcp_self: "lcp s s = s"
  by (induction s) auto

lemma static_slot_kind: "kind (static_slot n pat) = KStatic"
proof (cases "static_child n pat")
  case None
  then show ?thesis by (simp add: static_slot_def)
next
  case (Some c)
  then obtain b rest where "pat = b # rest" by (cases pat) auto
  with Some have "starts b c" using static_child_starts by blast
  with Some show ?thesis by (simp add: static_slot_def Let_def starts_def)
qed

lemma static_slot_lcp:
  "lcp (static_run pat) (prefix (static_slot n pat)) = prefix (static_slot n pat)"
  by (cases "static_child n pat") (auto simp: static_slot_def Let_def lcp_self lcp_idem)

lemma static_slot_starts:
  assumes "b \<noteq> CHR '':''" "b \<noteq> CHR ''*''"
  shows "starts b (static_slot n (b # rest))"
  using static_slot_prefix [OF assms, of n rest] static_slot_kind [of n "b # rest"]
  by (auto simp: starts_def)

lemma param_slot_set_child:
  "is_kind KParam c \<Longrightarrow> param_slot (set_child (is_kind KParam) c n) name = c"
  by (simp add: param_slot_def kind_child_def find_set_child)

lemma any_slot_set_child:
  "is_kind KAny c \<Longrightarrow> any_slot (set_child (is_kind KAny) c n) = c"
  by (simp add: any_slot_def kind_child_def find_set_child)

lemma static_slot_set_child:
  assumes "starts b c" "lcp (static_run (b # rest)) (prefix c) = prefix c"
  shows "static_slot (set_child (starts b) c n) (b # rest) = c"
  using assms by (simp add: static_slot_def find_set_child Let_def)

lemma insert_at_again:
  "insert_at m1 h1 pat n = Inr n1 \<Longrightarrow>
   \<exists>n2 n2'. insert_at m2 h2 pat n1 = Inr n2 \<and> insert_at m2 h2 pat n = Inr n2' \<and>
     (m1 = m2 \<longrightarrow> n2 = n2')"
proof (induction m1 h1 pat n arbitrary: n1 rule: insert_at.induct)
  case (1 m h n)
  then show ?case by (auto simp: put_twice)
next
  case (2 m h b rest n)
  show ?case
  proof (cases "b = CHR '':''")
    case True
    let ?name = "takeWhile (\<lambda>c. c \<noteq> CHR ''/'') rest"
    let ?pat = "dropWhile (\<lambda>c. c \<noteq> CHR ''/'') rest"
    let ?c = "param_slot n ?name"
    from "2.prems" True have names: "paramNames ?c = paramNames n @ [?name]"
      by (auto simp: Let_def split: if_splits)
    with "2.prems" True obtain c1 where c1: "insert_at m h ?pat ?c = Inr c1"
      and n1: "n1 = set_child (is_kind KParam) c1 n"
      by (auto simp: Let_def split: sum.splits)
    from "2.IH"(1) [OF True refl refl _ c1] names
    obtain c2 c2' where c2: "insert_at m2 h2 ?pat c1 = Inr c2" "insert_at m2 h2 ?pat ?c = Inr c2'"
      "m = m2 \<longrightarrow> c2 = c2'" by auto
    from insert_at_keeps [OF c1] param_slot_kind [of n ?name]
    have k1: "is_kind KParam c1" and p1: "paramNames c1 = paramNames ?c"
      by (auto simp: is_kind_def)
    have slot: "param_slot n1 ?name = c1" using k1 by (simp add: n1 param_slot_set_child)
    have a: "insert_at m2 h2 (b # rest) n1 = Inr (set_child (is_kind KParam) c2 n1)"
      using True slot p1 names c2(1) by (simp add: n1 Let_def)
    have b: "insert_at m2 h2 (b # rest) n = Inr (set_child (is_kind KParam) c2' n)"
      using True names c2(2) by (simp add: Let_def)
    have "set_child (is_kind KParam) c2 n1 = set_child (is_kind KParam) c2 n"
      unfolding n1 using k1 by (rule set_child_twice)
    with a b c2(3) show ?thesis by auto
  next
    case False
    note not_colon = False
    show ?thesis
    proof (cases "b = CHR ''*''")
      case True
      let ?c = "any_slot n"
      from "2.prems" True have rest: "rest = []" and names: "paramNames ?c = paramNames n @ [''*'']"
        by (auto simp: Let_def split: if_splits)
      with "2.prems" True obtain c1 where c1: "insert_at m h [] ?c = Inr c1"
        and n1: "n1 = set_child (is_kind KAny) c1 n"
        by (auto simp: Let_def split: sum.splits)
      from "2.IH"(2) [OF not_colon True refl _ c1] rest names
      obtain c2 c2' where c2: "insert_at m2 h2 [] c1 = Inr c2" "insert_at m2 h2 [] ?c = Inr c2'"
        "m = m2 \<longrightarrow> c2 = c2'" by auto
      from insert_at_keeps [OF c1] any_slot_kind [of n]
      have k1: "is_kind KAny c1" and p1: "paramNames c1 = paramNames ?c"
        by (auto simp: is_kind_def)
      have slot: "any_slot n1 = c1" using k1 by (simp add: n1 any_slot_set_child)
      have a: "insert_at m2 h2 (b # rest) n1 = Inr (set_child (is_kind KAny) c2 n1)"
        using True slot p1 names c2(1) rest by (simp add: n1 Let_def del: insert_at.simps(1))
      have b: "insert_at m2 h2 (b # rest) n = Inr (set_child (is_kind KAny) c2' n)"
        using True names c2(2) rest by (simp add: Let_def del: insert_at.simps(1))
      have "set_child (is_kind KAny) c2 n1 = set_child (is_kind KAny) c2 n"
        unfolding n1 using k1 by (rule set_child_twice)
      with a b c2(3) show ?thesis by auto
    next
      case False
      let ?c = "static_slot n (b # rest)"
      let ?pat = "drop (length (prefix ?c)) (b # rest)"
      from "2.prems" not_colon False obtain c1 where c1: "insert_at m h ?pat ?c = Inr c1"
        and n1: "n1 = set_child (starts b) c1 n"
        by (auto simp: Let_def split: sum.splits)
      from "2.IH"(3) [OF not_colon False refl c1]
      obtain c2 c2' where c2: "insert_at m2 h2 ?pat c1 = Inr c2" "insert_at m2 h2 ?pat ?c = Inr c2'"
        "m = m2 \<longrightarrow> c2 = c2'" by auto
      from insert_at_keeps [OF c1] have keep: "prefix c1 = prefix ?c" "kind c1 = kind ?c" by auto
      from static_slot_starts [OF not_colon False, of n rest] keep
      have k1: "starts b c1" by (simp add: starts_def)
      have "lcp (static_run (b # rest)) (prefix c1) = prefix c1"
        using static_slot_lcp [of "b # rest" n] keep by simp
      with k1 have slot: "static_slot n1 (b # rest) = c1"
        unfolding n1 by (rule static_slot_set_child)
      have a: "insert_at m2 h2 (b # rest) n1 = Inr (set_child (starts b) c2 n1)"
        using not_colon False slot keep c2(1) by (simp add: Let_def)
      have b: "insert_at m2 h2 (b # rest) n = Inr (set_child (starts b) c2' n)"
        using not_colon False c2(2) by (simp add: Let_def)
      have "set_child (starts b) c2 n1 = set_child (starts b) c2 n"
        unfolding n1 using k1 by (rule set_child_twice)
      with a b c2(3) show ?thesis by auto
    qed
  qed
qed

section \<open>Properties of reverse routing\<close>

lemma fill_pieces_none: "fill sprint (pieces p) [] = p"
proof (induction p rule: pieces.induct)
  case 1
  then show ?case by simp
next
  case (2 c cs)
  then show ?case by (simp add: takeWhile_dropWhile_id)
qed

lemma write_uri_none: "write_uri sprint p [] = p"
  by (induction p) simp_all

lemma write_uri_fill: "write_uri sprint p vs = fill sprint (pieces p) vs"
proof (induction sprint p vs rule: write_uri.induct)
  case (1 sprint ps)
  then show ?case by simp
next
  case (2 sprint c cs ps)
  show ?case
  proof (cases "c = CHR '':'' \<and> ps \<noteq> []")
    case False
    then have IH: "write_uri sprint cs ps = fill sprint (pieces cs) ps" using 2 by blast
    show ?thesis
    proof (cases "c = CHR '':''")
      case True
      with False have "ps = []" by simp
      then show ?thesis using True
        by (simp add: write_uri_none fill_pieces_none takeWhile_dropWhile_id)
    next
      case False
      with IH show ?thesis by simp
    qed
  next
    case True
    then obtain v vs where ps: "ps = v # vs" by (cases ps) auto
    from True have c: "c = CHR '':''" and ne: "ps \<noteq> []" by simp_all
    let ?rest = "dropWhile (\<lambda>x. x \<noteq> CHR ''/'') cs"
    have lhs: "write_uri sprint (c # cs) ps =
        sprint (hd ps) @ (case ?rest of [] \<Rightarrow> [] | d # ds \<Rightarrow> d # write_uri sprint ds (tl ps))"
      using ne by (simp add: c)
    have rhs: "fill sprint (pieces (c # cs)) ps = sprint v @ fill sprint (pieces ?rest) vs"
      unfolding c ps by simp
    have mid: "(case ?rest of [] \<Rightarrow> [] | d # ds \<Rightarrow> d # write_uri sprint ds (tl ps)) = fill sprint (pieces ?rest) vs"
    proof (cases ?rest)
      case Nil
      have "fill sprint (pieces []) vs = []" by simp
      then show ?thesis by (simp only: Nil list.case)
    next
      case (Cons d ds)
      have "\<not> (hd ?rest \<noteq> CHR ''/'')" by (rule hd_dropWhile) (simp only: Cons list.distinct not_False_eq_True)
      then have d: "d = CHR ''/''" by (simp only: Cons list.sel not_not)
      have dw: "dropWhile (\<lambda>x. x \<noteq> CHR ''/'') (c # cs) = d # ds"
        unfolding c using Cons by simp
      have "write_uri sprint ds (tl ps) = fill sprint (pieces ds) (tl ps)"
        using True dw by (rule "2.IH"(1))
      then have "d # write_uri sprint ds (tl ps) = fill sprint (pieces (d # ds)) vs"
        by (simp add: ps d)
      then show ?thesis by (simp only: Cons list.case)
    qed
    have "write_uri sprint (c # cs) ps = sprint (hd ps) @ fill sprint (pieces ?rest) vs"
      by (simp only: lhs mid)
    also have "\<dots> = sprint v @ fill sprint (pieces ?rest) vs"
      by (simp only: ps list.sel)
    also have "\<dots> = fill sprint (pieces (c # cs)) ps"
      by (rule rhs [symmetric])
    finally show ?thesis .
  qed
qed

section \<open>Properties of the lookup\<close>

lemma search_unfold:
  "search ok n inp vals =
     (if inp = [] \<and> ok n then Some (n, vals)
      else case try_static ok n inp vals of Some r \<Rightarrow> Some r
        | None \<Rightarrow> (case try_param ok n inp vals of Some r \<Rightarrow> Some r
            | None \<Rightarrow> try_any ok n inp vals))"
  unfolding try_static_def try_param_def try_any_def by (rule search.simps)

lemma search_complete:
  "reach n inp vals ks m v \<Longrightarrow> ok m \<Longrightarrow> \<exists>r. search ok n inp vals = Some r"
proof (induction rule: reach.induct)
  case (stop n vals)
  then show ?case by (subst search_unfold) simp
next
  case (static n inp c vals ks n' vals')
  then obtain r where "search ok c (drop (length (prefix c)) inp) vals = Some r" by blast
  with static.hyps have "try_static ok n inp vals = Some r" by (simp add: try_static_def)
  then show ?case by (subst search_unfold) simp
next
  case param
  then show ?case
    by (subst search_unfold) (auto simp: try_param_def split: option.splits)
next
  case any
  then show ?case
    by (subst search_unfold) (auto simp: try_any_def split: option.splits)
qed

lemma search_first:
  "search ok n inp vals = Some (n', vals') \<Longrightarrow>
   \<exists>ks. reach n inp vals ks n' vals' \<and> ok n' \<and>
     (\<forall>ks' m v. reach n inp vals ks' m v \<and> ok m \<longrightarrow> before ks ks')"
proof (induction ok n inp vals arbitrary: n' vals' rule: search.induct)
  case (1 ok n inp vals)
  show ?case
  proof (cases "inp = [] \<and> ok n")
    case True
    with "1.prems" have "n' = n" "vals' = vals" by (simp_all add: search_unfold)
    with True have "reach n inp vals [] n' vals' \<and> ok n'" by (auto intro: reach.stop)
    then show ?thesis by (intro exI [of _ "[]"]) simp
  next
    case False
    note not_here = False
    have no_stop: "\<not> (reach n inp vals [] m v \<and> ok m)" for m v
      using not_here by (auto elim: reach.cases)
    show ?thesis
    proof (cases "try_static ok n inp vals")
      case (Some r)
      with "1.prems" not_here have r: "r = (n', vals')" by (simp add: search_unfold)
      from Some obtain c where c: "static_child n inp = Some c"
        "take (length (prefix c)) inp = prefix c"
        "search ok c (drop (length (prefix c)) inp) vals = Some (n', vals')"
        unfolding r by (auto simp: try_static_def split: option.splits if_splits)
      from "1.IH"(1) [OF not_here c(1) c(2) c(3)] obtain ks where
        ks: "reach c (drop (length (prefix c)) inp) vals ks n' vals'" "ok n'"
        "\<forall>ks' m v. reach c (drop (length (prefix c)) inp) vals ks' m v \<and> ok m \<longrightarrow> before ks ks'"
        by blast
      have "before (KStatic # ks) ks'" if h: "reach n inp vals ks' m v" "ok m" for ks' m v
        using h(1)
      proof (cases rule: reach.cases)
        case stop
        with h no_stop show ?thesis by blast
      next
        case (static c' ks'')
        with c h ks(3) show ?thesis by auto
      next
        case (param c' ks'')
        then show ?thesis by simp
      next
        case (any c' ks'')
        then show ?thesis by simp
      qed
      with ks c show ?thesis
        by (intro exI [of _ "KStatic # ks"]) (auto intro: reach.static)
    next
      case None
      note no_static = None
      have static_fails: "\<not> (reach c (drop (length (prefix c)) inp) vals ks m v \<and> ok m)"
        if "static_child n inp = Some c" "take (length (prefix c)) inp = prefix c" for c ks m v
      proof
        assume "reach c (drop (length (prefix c)) inp) vals ks m v \<and> ok m"
        then obtain r where "search ok c (drop (length (prefix c)) inp) vals = Some r"
          using search_complete by blast
        with that no_static show False by (simp add: try_static_def)
      qed
      show ?thesis
      proof (cases "try_param ok n inp vals")
        case (Some r)
        with "1.prems" not_here no_static have r: "r = (n', vals')" by (simp add: search_unfold)
        let ?inp = "dropWhile (\<lambda>x. x \<noteq> CHR ''/'') inp"
        let ?vals = "vals @ [takeWhile (\<lambda>x. x \<noteq> CHR ''/'') inp]"
        from Some obtain c where c: "kind_child KParam n = Some c"
          "search ok c ?inp ?vals = Some (n', vals')"
          unfolding r by (auto simp: try_param_def split: option.splits)
        have s: "(case static_child n inp of None \<Rightarrow> None
               | Some c \<Rightarrow> if take (length (prefix c)) inp = prefix c
                   then search ok c (drop (length (prefix c)) inp) vals else None) = None"
          using no_static by (simp add: try_static_def)
        from "1.IH"(2) [OF not_here s c(1) c(2)] obtain ks where
          ks: "reach c ?inp ?vals ks n' vals'" "ok n'"
          "\<forall>ks' m v. reach c ?inp ?vals ks' m v \<and> ok m \<longrightarrow> before ks ks'"
          by blast
        have "before (KParam # ks) ks'" if h: "reach n inp vals ks' m v" "ok m" for ks' m v
          using h(1)
        proof (cases rule: reach.cases)
          case stop
          with h no_stop show ?thesis by blast
        next
          case (static c' ks'')
          with static_fails h show ?thesis by blast
        next
          case (param c' ks'')
          with c h ks(3) show ?thesis by auto
        next
          case (any c' ks'')
          then show ?thesis by simp
        qed
        with ks c show ?thesis
          by (intro exI [of _ "KParam # ks"]) (auto intro: reach.param)
      next
        case None
        note no_param = None
        let ?inp = "dropWhile (\<lambda>x. x \<noteq> CHR ''/'') inp"
        let ?vals = "vals @ [takeWhile (\<lambda>x. x \<noteq> CHR ''/'') inp]"
        have param_fails: "\<not> (reach c ?inp ?vals ks m v \<and> ok m)"
          if "kind_child KParam n = Some c" for c ks m v
        proof
          assume "reach c ?inp ?vals ks m v \<and> ok m"
          then obtain r where "search ok c ?inp ?vals = Some r"
            using search_complete by blast
          with that no_param show False by (simp add: try_param_def)
        qed
        from "1.prems" not_here no_static no_param
        have a: "try_any ok n inp vals = Some (n', vals')" by (simp add: search_unfold)
        then obtain c where c: "kind_child KAny n = Some c"
          "search ok c [] (vals @ [inp]) = Some (n', vals')"
          by (auto simp: try_any_def split: option.splits)
        have s: "(case static_child n inp of None \<Rightarrow> None
               | Some c \<Rightarrow> if take (length (prefix c)) inp = prefix c
                   then search ok c (drop (length (prefix c)) inp) vals else None) = None"
          using no_static by (simp add: try_static_def)
        have p: "(case kind_child KParam n of None \<Rightarrow> None
               | Some c \<Rightarrow> search ok c ?inp ?vals) = None"
          using no_param by (simp add: try_param_def)
        from "1.IH"(3) [OF not_here s p c(1) c(2)] obtain ks where
          ks: "reach c [] (vals @ [inp]) ks n' vals'" "ok n'"
          "\<forall>ks' m v. reach c [] (vals @ [inp]) ks' m v \<and> ok m \<longrightarrow> before ks ks'"
          by blast
        have "before (KAny # ks) ks'" if h: "reach n inp vals ks' m v" "ok m" for ks' m v
          using h(1)
        proof (cases rule: reach.cases)
          case stop
          with h no_stop show ?thesis by blast
        next
          case (static c' ks'')
          with static_fails h show ?thesis by blast
        next
          case (param c' ks'')
          with param_fails h show ?thesis by blast
        next
          case (any c' ks'')
          with c h ks(3) show ?thesis by auto
        qed
        with ks c show ?thesis
          by (intro exI [of _ "KAny # ks"]) (auto intro: reach.any)
      qed
    qed
  qed
qed

section \<open>The lookup: order of the alternatives and the two failure outcomes\<close>

lemma has_handler_handlers: "has_handler m n \<Longrightarrow> has_handlers n"
  by (auto simp: has_handler_def has_handlers_def)

lemma Find_Matched_iff:
  "Find root m p = Matched h ns vs \<longleftrightarrow>
     (\<exists>n. search (has_handler m) root p [] = Some (n, vs) \<and> map_of (handlers n) m = Some h \<and> ns = paramNames n)"
  by (auto simp: Find_def split: option.splits)

lemma search_ok: "search ok n inp vals = Some (n', vals') \<Longrightarrow> ok n'"
  using search_first by blast

lemma search_none_iff:
  "search ok n inp vals = None \<longleftrightarrow> \<not> (\<exists>ks m v. reach n inp vals ks m v \<and> ok m)"
proof
  assume "search ok n inp vals = None"
  then show "\<not> (\<exists>ks m v. reach n inp vals ks m v \<and> ok m)"
    using search_complete by fastforce
next
  assume h: "\<not> (\<exists>ks m v. reach n inp vals ks m v \<and> ok m)"
  show "search ok n inp vals = None"
  proof (cases "search ok n inp vals")
    case None
    then show ?thesis .
  next
    case (Some r)
    obtain n' vals' where "r = (n', vals')" by (cases r)
    with Some search_first [of ok n inp vals n' vals'] h show ?thesis by blast
  qed
qed

lemmas router_eval = Router_Add_def Router_Find_def NewRouter_def Find_def search.simps
  static_slot_def param_slot_def any_slot_def static_run_def kind_child_def set_child_def
  starts_def is_kind_def has_handler_def has_handlers_def Let_def

lemma Find_first:
  assumes "Find root m p = Matched h ns vs"
  shows "\<exists>ks n. reach root p [] ks n vs \<and> map_of (handlers n) m = Some h \<and> ns = paramNames n \<and>
           (\<forall>ks' n' vs'. reach root p [] ks' n' vs' \<and> has_handler m n' \<longrightarrow> before ks ks')"
proof -
  from assms obtain n where n: "search (has_handler m) root p [] = Some (n, vs)"
    "map_of (handlers n) m = Some h" "ns = paramNames n"
    by (auto simp: Find_Matched_iff)
  from search_first [OF n(1)] n(2,3) show ?thesis by blast
qed

lemma Find_exhaustive:
  assumes "reach root p [] ks n vs" "has_handler m n"
  shows "\<exists>h ns vs'. Find root m p = Matched h ns vs'"
proof -
  from search_complete [OF assms(1), of "has_handler m"] assms(2)
  obtain r where r: "search (has_handler m) root p [] = Some r" by blast
  obtain n' vs' where r': "r = (n', vs')" by (cases r)
  from r r' have "has_handler m n'" using search_ok by blast
  then obtain h where "map_of (handlers n') m = Some h" by (auto simp: has_handler_def)
  with r r' show ?thesis by (simp add: Find_def)
qed

lemma Find_MethodNotAllowed_iff:
  "Find root m p = MethodNotAllowed \<longleftrightarrow>
     (\<not> (\<exists>ks n vs. reach root p [] ks n vs \<and> has_handler m n) \<and>
      (\<exists>ks n vs. reach root p [] ks n vs \<and> has_handlers n))"
proof (cases "search (has_handler m) root p []")
  case None
  then have a: "\<not> (\<exists>ks n vs. reach root p [] ks n vs \<and> has_handler m n)"
    by (simp add: search_none_iff)
  show ?thesis
  proof (cases "search has_handlers root p []")
    case None
    with \<open>search (has_handler m) root p [] = None\<close> have "Find root m p = NotFound"
      by (simp add: Find_def)
    moreover from None have "\<not> (\<exists>ks n vs. reach root p [] ks n vs \<and> has_handlers n)"
      by (simp add: search_none_iff)
    ultimately show ?thesis by simp
  next
    case (Some r)
    with \<open>search (has_handler m) root p [] = None\<close> have "Find root m p = MethodNotAllowed"
      by (simp add: Find_def)
    moreover from Some have "\<exists>ks n vs. reach root p [] ks n vs \<and> has_handlers n"
      using search_none_iff [of has_handlers root p "[]"] by simp
    ultimately show ?thesis using a by simp
  qed
next
  case (Some r)
  obtain n vs where r: "r = (n, vs)" by (cases r)
  from Some r have ok: "has_handler m n" using search_ok by blast
  then obtain h where "map_of (handlers n) m = Some h" by (auto simp: has_handler_def)
  with Some r have "Find root m p = Matched h (paramNames n) vs" by (simp add: Find_def)
  moreover from Some have "\<exists>ks n vs. reach root p [] ks n vs \<and> has_handler m n"
    using search_none_iff [of "has_handler m" root p "[]"] by simp
  ultimately show ?thesis by simp
qed

lemma Find_NotFound_iff:
  "Find root m p = NotFound \<longleftrightarrow> \<not> (\<exists>ks n vs. reach root p [] ks n vs \<and> has_handlers n)"
proof (cases "search (has_handler m) root p []")
  case None
  show ?thesis
  proof (cases "search has_handlers root p []")
    case None
    with \<open>search (has_handler m) root p [] = None\<close> have "Find root m p = NotFound"
      by (simp add: Find_def)
    moreover from None have "\<not> (\<exists>ks n vs. reach root p [] ks n vs \<and> has_handlers n)"
      by (simp add: search_none_iff)
    ultimately show ?thesis by simp
  next
    case (Some r)
    with \<open>search (has_handler m) root p [] = None\<close> have "Find root m p = MethodNotAllowed"
      by (simp add: Find_def)
    moreover from Some have "\<exists>ks n vs. reach root p [] ks n vs \<and> has_handlers n"
      using search_none_iff [of has_handlers root p "[]"] by simp
    ultimately show ?thesis by simp
  qed
next
  case (Some r)
  obtain n vs where r: "r = (n, vs)" by (cases r)
  from Some r have ok: "has_handler m n" using search_ok by blast
  then obtain h where "map_of (handlers n) m = Some h" by (auto simp: has_handler_def)
  with Some r have "Find root m p = Matched h (paramNames n) vs" by (simp add: Find_def)
  moreover from Some have "\<exists>ks n vs. reach root p [] ks n vs \<and> has_handler m n"
    using search_none_iff [of "has_handler m" root p "[]"] by simp
  then have "\<exists>ks n vs. reach root p [] ks n vs \<and> has_handlers n"
    using has_handler_handlers by blast
  ultimately show ?thesis by simp
qed



text \<open>
  C1. At every branch point \<open>Find\<close> tries the alternatives in the order static, param,
  any, and it backtracks exhaustively. A match is the end of a walk \<open>ks\<close> through the
  trie to a node with a handler for the method, and \<open>ks\<close> comes before every other such
  walk: at the first branch point where another walk differs, that walk takes a later
  alternative. Whenever some walk ends at a node with a handler for the method, \<open>Find\<close>
  matches. In particular, with \<open>/users/new\<close> and \<open>/users/:id\<close> registered, in either
  order, \<open>/users/new\<close> resolves to the static route's handler and \<open>/users/42\<close> to the
  param route's handler with \<open>id = 42\<close>.
\<close>

theorem Find_static_param_any:
  "(Find root m p = Matched h ns vs \<longrightarrow>
      (\<exists>ks n. reach root p [] ks n vs \<and> map_of (handlers n) m = Some h \<and> ns = paramNames n \<and>
         (\<forall>ks' n' vs'. reach root p [] ks' n' vs' \<and> has_handler m n' \<longrightarrow> before ks ks'))) \<and>
   (reach root p [] ks' n' vs' \<and> has_handler m n' \<longrightarrow> (\<exists>h ns vs. Find root m p = Matched h ns vs)) \<and>
   (\<exists>r1 r2. Router_Add GET ''/users/new'' h1 NewRouter = Inr r1 \<and>
      Router_Add GET ''/users/:id'' h2 r1 = Inr r2 \<and>
      Router_Find r2 GET ''/users/new'' = Matched h1 [] [] \<and>
      Router_Find r2 GET ''/users/42'' = Matched h2 [''id''] [''42'']) \<and>
   (\<exists>r1 r2. Router_Add GET ''/users/:id'' h2 NewRouter = Inr r1 \<and>
      Router_Add GET ''/users/new'' h1 r1 = Inr r2 \<and>
      Router_Find r2 GET ''/users/new'' = Matched h1 [] [] \<and>
      Router_Find r2 GET ''/users/42'' = Matched h2 [''id''] [''42''])"
proof (intro conjI impI)
  assume "Find root m p = Matched h ns vs"
  then show "\<exists>ks n. reach root p [] ks n vs \<and> map_of (handlers n) m = Some h \<and> ns = paramNames n \<and>
         (\<forall>ks' n' vs'. reach root p [] ks' n' vs' \<and> has_handler m n' \<longrightarrow> before ks ks')"
    by (rule Find_first)
next
  assume "reach root p [] ks' n' vs' \<and> has_handler m n'"
  then show "\<exists>h ns vs. Find root m p = Matched h ns vs"
    using Find_exhaustive by blast
next
  show "\<exists>r1 r2. Router_Add GET ''/users/new'' h1 NewRouter = Inr r1 \<and>
      Router_Add GET ''/users/:id'' h2 r1 = Inr r2 \<and>
      Router_Find r2 GET ''/users/new'' = Matched h1 [] [] \<and>
      Router_Find r2 GET ''/users/42'' = Matched h2 [''id''] [''42'']"
    by (simp add: router_eval GET_def)
next
  show "\<exists>r1 r2. Router_Add GET ''/users/:id'' h2 NewRouter = Inr r1 \<and>
      Router_Add GET ''/users/new'' h1 r1 = Inr r2 \<and>
      Router_Find r2 GET ''/users/new'' = Matched h1 [] [] \<and>
      Router_Find r2 GET ''/users/42'' = Matched h2 [''id''] [''42'']"
    by (simp add: router_eval GET_def)
qed

text \<open>
  The theorem at the router with \<open>/users/new\<close> and \<open>/users/:id\<close>: the match of
  \<open>/users/42\<close> is the end of a walk to a node with the handler of the param route, before
  all other walks to a handler.
\<close>

theorem Find_static_param_any_witness:
  "\<exists>r1 r2. Router_Add GET ''/users/new'' (1::nat) NewRouter = Inr r1 \<and>
      Router_Add GET ''/users/:id'' 2 r1 = Inr r2 \<and>
      Router_Find r2 GET ''/users/new'' = Matched 1 [] [] \<and>
      (\<exists>ks n. reach (tree r2) ''/users/42'' [] ks n [''42''] \<and>
         map_of (handlers n) GET = Some 2 \<and> paramNames n = [''id''] \<and>
         (\<forall>ks' n' vs'. reach (tree r2) ''/users/42'' [] ks' n' vs' \<and> has_handler GET n'
            \<longrightarrow> before ks ks') \<and>
         (\<exists>h ns vs. Find (tree r2) GET ''/users/42'' = Matched h ns vs))"
proof -
  have "\<exists>r1 r2. Router_Add GET ''/users/new'' (1::nat) NewRouter = Inr r1 \<and>
      Router_Add GET ''/users/:id'' 2 r1 = Inr r2 \<and>
      Router_Find r2 GET ''/users/new'' = Matched 1 [] [] \<and>
      Router_Find r2 GET ''/users/42'' = Matched 2 [''id''] [''42'']"
    by (rule Find_static_param_any [THEN conjunct2, THEN conjunct2, THEN conjunct1])
  then obtain r1 r2 where r: "Router_Add GET ''/users/new'' (1::nat) NewRouter = Inr r1"
    "Router_Add GET ''/users/:id'' 2 r1 = Inr r2"
    "Router_Find r2 GET ''/users/new'' = Matched 1 [] []"
    "Router_Find r2 GET ''/users/42'' = Matched 2 [''id''] [''42'']"
    by blast
  from r(4) have f: "Find (tree r2) GET ''/users/42'' = Matched 2 [''id''] [''42'']"
    by (simp add: Router_Find_def)
  have "Find (tree r2) GET ''/users/42'' = Matched 2 [''id''] [''42''] \<longrightarrow>
      (\<exists>ks n. reach (tree r2) ''/users/42'' [] ks n [''42''] \<and>
         map_of (handlers n) GET = Some 2 \<and> [''id''] = paramNames n \<and>
         (\<forall>ks' n' vs'. reach (tree r2) ''/users/42'' [] ks' n' vs' \<and> has_handler GET n'
            \<longrightarrow> before ks ks'))"
    by (rule Find_static_param_any [THEN conjunct1])
  with f obtain ks n where n: "reach (tree r2) ''/users/42'' [] ks n [''42'']"
    "map_of (handlers n) GET = Some 2" "[''id''] = paramNames n"
    "\<forall>ks' n' vs'. reach (tree r2) ''/users/42'' [] ks' n' vs' \<and> has_handler GET n'
        \<longrightarrow> before ks ks'"
    by blast
  from n(2) have hn: "has_handler GET n" by (simp add: has_handler_def)
  have "reach (tree r2) ''/users/42'' [] ks n [''42''] \<and> has_handler GET n \<longrightarrow>
      (\<exists>h ns vs. Find (tree r2) GET ''/users/42'' = Matched h ns vs)"
    by (rule Find_static_param_any [THEN conjunct2, THEN conjunct1])
  with n(1) hn have "\<exists>h ns vs. Find (tree r2) GET ''/users/42'' = Matched h ns vs" by blast
  with r n show ?thesis by auto
qed

text \<open>
  C2. "Method not allowed" and "not found" are distinct outcomes of the lookup. The
  lookup is "method not allowed" exactly when no walk ends at a node with a handler for
  the method while some walk ends at a node with handlers, and "not found" exactly when
  no walk ends at a node with handlers. The dispatch reads them back as the sentinel
  handlers \<open>MethodNotAllowedHandler\<close> and \<open>NotFoundHandler\<close>, which return the distinct
  errors \<open>ErrMethodNotAllowed\<close> (code 405) and \<open>ErrNotFound\<close> (code 404), each with the
  status text of its code as message; the error handler answers with these codes.
\<close>

theorem MethodNotAllowed_NotFound_distinct:
  "(Find root m p = MethodNotAllowed \<longleftrightarrow>
      (\<not> (\<exists>ks n vs. reach root p [] ks n vs \<and> has_handler m n) \<and>
       (\<exists>ks n vs. reach root p [] ks n vs \<and> has_handlers n))) \<and>
   (Find root m p = NotFound \<longleftrightarrow>
      \<not> (\<exists>ks n vs. reach root p [] ks n vs \<and> has_handlers n)) \<and>
   handler_of (MethodNotAllowed :: 'h found) = MethodNotAllowedHandler \<and>
   handler_of (NotFound :: 'h found) = NotFoundHandler \<and>
   call StatusText run (MethodNotAllowedHandler :: 'h HandlerFunc) c =
     Some (HTTP (ErrMethodNotAllowed StatusText)) \<and>
   call StatusText run (NotFoundHandler :: 'h HandlerFunc) c = Some (HTTP (ErrNotFound StatusText)) \<and>
   ErrMethodNotAllowed StatusText = \<lparr>Code = 405, Message = IString (StatusText 405), Inner = None\<rparr> \<and>
   ErrNotFound StatusText = \<lparr>Code = 404, Message = IString (StatusText 404), Inner = None\<rparr> \<and>
   ErrMethodNotAllowed StatusText \<noteq> ErrNotFound StatusText \<and>
   code_and_msg StatusText fmt Debug (HTTP (ErrMethodNotAllowed StatusText)) =
     Inr (405, IMap [(''message'', IString (StatusText 405))]) \<and>
   code_and_msg StatusText fmt Debug (HTTP (ErrNotFound StatusText)) =
     Inr (404, IMap [(''message'', IString (StatusText 404))])"
proof -
  have a: "ErrMethodNotAllowed StatusText = \<lparr>Code = 405, Message = IString (StatusText 405), Inner = None\<rparr>"
    by (simp add: ErrMethodNotAllowed_def NewHTTPError_def StatusMethodNotAllowed_def)
  have b: "ErrNotFound StatusText = \<lparr>Code = 404, Message = IString (StatusText 404), Inner = None\<rparr>"
    by (simp add: ErrNotFound_def NewHTTPError_def StatusNotFound_def)
  have c: "code_and_msg StatusText fmt Debug (HTTP (ErrMethodNotAllowed StatusText)) =
     Inr (405, IMap [(''message'', IString (StatusText 405))])"
    by (simp add: a code_and_msg_def assert_HTTPError_def deref_def)
  have d: "code_and_msg StatusText fmt Debug (HTTP (ErrNotFound StatusText)) =
     Inr (404, IMap [(''message'', IString (StatusText 404))])"
    by (simp add: b code_and_msg_def assert_HTTPError_def deref_def)
  have e: "ErrMethodNotAllowed StatusText \<noteq> ErrNotFound StatusText"
    by (simp add: a b)
  show ?thesis
    using Find_MethodNotAllowed_iff [of root m p] Find_NotFound_iff [of root m p] a b c d e
    by simp
qed

text \<open>
  The theorem at a router with the one route \<open>GET /\<close>, as in the tests of the source:
  \<open>POST /\<close> is "method not allowed", \<open>GET /files\<close> is "not found".
\<close>

theorem MethodNotAllowed_NotFound_distinct_witness:
  "\<exists>r. Router_Add GET ''/'' (1::nat) NewRouter = Inr r \<and>
     Router_Find r POST ''/'' = MethodNotAllowed \<and>
     Router_Find r GET ''/files'' = NotFound \<and>
     (\<exists>ks n vs. reach (tree r) ''/'' [] ks n vs \<and> has_handlers n) \<and>
     \<not> (\<exists>ks n vs. reach (tree r) ''/'' [] ks n vs \<and> has_handler POST n) \<and>
     \<not> (\<exists>ks n vs. reach (tree r) ''/files'' [] ks n vs \<and> has_handlers n)"
proof -
  have "\<exists>r. Router_Add GET ''/'' (1::nat) NewRouter = Inr r \<and>
     Router_Find r POST ''/'' = MethodNotAllowed \<and> Router_Find r GET ''/files'' = NotFound"
    by (simp add: router_eval GET_def POST_def)
  then obtain r where r: "Router_Add GET ''/'' (1::nat) NewRouter = Inr r"
    "Find (tree r) POST ''/'' = MethodNotAllowed" "Find (tree r) GET ''/files'' = NotFound"
    by (auto simp: Router_Find_def)
  have "(Find (tree r) POST ''/'' = MethodNotAllowed) =
      (\<not> (\<exists>ks n vs. reach (tree r) ''/'' [] ks n vs \<and> has_handler POST n) \<and>
       (\<exists>ks n vs. reach (tree r) ''/'' [] ks n vs \<and> has_handlers n))"
    by (rule MethodNotAllowed_NotFound_distinct [THEN conjunct1])
  with r(2) have "\<not> (\<exists>ks n vs. reach (tree r) ''/'' [] ks n vs \<and> has_handler POST n) \<and>
       (\<exists>ks n vs. reach (tree r) ''/'' [] ks n vs \<and> has_handlers n)" by simp
  moreover have "(Find (tree r) GET ''/files'' = NotFound) =
      (\<not> (\<exists>ks n vs. reach (tree r) ''/files'' [] ks n vs \<and> has_handlers n))"
    by (rule MethodNotAllowed_NotFound_distinct [THEN conjunct2, THEN conjunct1])
  with r(3) have "\<not> (\<exists>ks n vs. reach (tree r) ''/files'' [] ks n vs \<and> has_handlers n)" by simp
  ultimately show ?thesis using r by (auto simp: Router_Find_def)
qed

section \<open>Registration: last write wins, and all methods\<close>

lemma Router_Add_again:
  assumes "Router_Add m1 p h1 rt = Inr rt1"
  shows "\<exists>rt2 rt2'. Router_Add m2 p h2 rt1 = Inr rt2 \<and> Router_Add m2 p h2 rt = Inr rt2' \<and>
           routes rt2 = routes rt1 \<and> routes rt2' = routes rt \<and> routes rt1 = routes rt \<and>
           (m1 = m2 \<longrightarrow> tree rt2 = tree rt2')"
proof -
  from assms obtain t1 where t1: "insert_at m1 h1 p (tree rt) = Inr t1" and rt1: "rt1 = rt\<lparr>tree := t1\<rparr>"
    by (auto simp: Router_Add_def split: sum.splits)
  from insert_at_again [OF t1, of m2 h2] obtain t2 t2' where
    t2: "insert_at m2 h2 p t1 = Inr t2" "insert_at m2 h2 p (tree rt) = Inr t2'" "m1 = m2 \<longrightarrow> t2 = t2'"
    by blast
  then show ?thesis by (simp add: Router_Add_def rt1)
qed

lemma Akita_Add_route:
  "Akita_Add hn m p h mw rt = Inr (r, rt') \<Longrightarrow>
     r = \<lparr>Method = m, Path = p, Name = hn h\<rparr> \<and>
     (\<exists>rt1. Router_Add m p (chain h mw) rt = Inr rt1 \<and> rt' = rt1\<lparr>routes := (routes rt1)(m @ p \<mapsto> r)\<rparr>)"
  by (auto simp: Akita_Add_def Let_def split: sum.splits)

lemma Akita_Add_again:
  assumes "Akita_Add hn m1 p h1 mw1 rt = Inr (r1, rt1)"
  shows "\<exists>r2 rt2. Akita_Add hn m2 p h2 mw2 rt1 = Inr (r2, rt2)"
proof -
  from Akita_Add_route [OF assms] obtain rta where
    rta: "Router_Add m1 p (chain h1 mw1) rt = Inr rta"
    and rt1: "rt1 = rta\<lparr>routes := (routes rta)(m1 @ p \<mapsto> r1)\<rparr>" by blast
  from Router_Add_again [OF rta, of m2 "chain h2 mw2"] obtain rtb where
    "Router_Add m2 p (chain h2 mw2) rta = Inr rtb" by blast
  then have "Router_Add m2 p (chain h2 mw2) rt1 = Inr (rtb\<lparr>routes := (routes rta)(m1 @ p \<mapsto> r1)\<rparr>)"
    by (auto simp: Router_Add_def rt1 split: sum.splits)
  then show ?thesis by (simp add: Akita_Add_def Let_def)
qed

lemma add_each_routes:
  "add_each hn ms p h mw rs0 rt = Inr (rs, rt') \<Longrightarrow>
   rs = rs0 @ map (\<lambda>m. \<lparr>Method = m, Path = p, Name = hn h\<rparr>) ms"
proof (induction ms arbitrary: rs0 rt)
  case Nil
  then show ?case by simp
next
  case (Cons m ms)
  from Cons.prems obtain r rt1 where a: "Akita_Add hn m p h mw rt = Inr (r, rt1)"
    and rest: "add_each hn ms p h mw (rs0 @ [r]) rt1 = Inr (rs, rt')"
    by (auto split: sum.splits)
  from Akita_Add_route [OF a] have "r = \<lparr>Method = m, Path = p, Name = hn h\<rparr>" by simp
  with Cons.IH [OF rest] show ?case by simp
qed

lemma add_each_succeeds:
  "Akita_Add hn m0 p h0 mw0 rt0 = Inr (r0, rt) \<Longrightarrow>
   \<exists>rs' rt'. add_each hn ms p h mw rs rt = Inr (rs', rt')"
proof (induction ms arbitrary: rs rt rt0 m0 r0 h0 mw0)
  case Nil
  then show ?case by simp
next
  case (Cons m ms)
  from Akita_Add_again [OF Cons.prems, of m h mw] obtain r rt1 where
    a: "Akita_Add hn m p h mw rt = Inr (r, rt1)" by blast
  from Cons.IH [OF a, of "rs @ [r]"] a show ?case by simp
qed

lemma Router_Add_routes: "Router_Add m p h rt = Inr rt' \<Longrightarrow> routes rt' = routes rt"
  by (auto simp: Router_Add_def split: sum.splits)

lemma Akita_Add_routes:
  assumes "Akita_Add hn m p h mw rt = Inr (r, rt')"
  shows "routes rt' = (routes rt)(m @ p \<mapsto> \<lparr>Method = m, Path = p, Name = hn h\<rparr>)"
proof -
  from Akita_Add_route [OF assms] obtain rt1 where
    "r = \<lparr>Method = m, Path = p, Name = hn h\<rparr>" "Router_Add m p (chain h mw) rt = Inr rt1"
    "rt' = rt1\<lparr>routes := (routes rt1)(m @ p \<mapsto> r)\<rparr>" by blast
  then show ?thesis by (simp add: Router_Add_routes)
qed

lemma add_each_map:
  "add_each hn ms p h mw rs0 rt = Inr (rs, rt') \<Longrightarrow>
   routes rt' k =
     (if \<exists>m\<in>set ms. k = m @ p
      then Some \<lparr>Method = take (length k - length p) k, Path = p, Name = hn h\<rparr>
      else routes rt k)"
proof (induction ms arbitrary: rs0 rt)
  case Nil
  then show ?case by simp
next
  case (Cons m ms)
  from Cons.prems obtain r rt1 where a: "Akita_Add hn m p h mw rt = Inr (r, rt1)"
    and rest: "add_each hn ms p h mw (rs0 @ [r]) rt1 = Inr (rs, rt')"
    by (auto split: sum.splits)
  note step = Akita_Add_routes [OF a]
  show ?case
  proof (cases "\<exists>m'\<in>set ms. k = m' @ p")
    case True
    with Cons.IH [OF rest] show ?thesis by auto
  next
    case False
    with Cons.IH [OF rest] have "routes rt' k = routes rt1 k" by simp
    with step False show ?thesis by auto
  qed
qed

text \<open>
  C3. When \<open>Add(m, p, h1)\<close> has returned, \<open>Add(m, p, h2)\<close> returns as well, and it leaves
  the router in the state that \<open>Add(m, p, h2)\<close> alone leads to from the start: one record
  is stored under the key \<open>m + p\<close>, and it describes the last registration.
\<close>

theorem Akita_Add_last_write_wins:
  assumes "Akita_Add handlerName m p h1 mw1 rt = Inr (r1, rt1)"
  shows "\<exists>r2 rt2.
           Akita_Add handlerName m p h2 mw2 rt1 = Inr (r2, rt2) \<and>
           Akita_Add handlerName m p h2 mw2 rt = Inr (r2, rt2) \<and>
           r2 = \<lparr>Method = m, Path = p, Name = handlerName h2\<rparr> \<and>
           routes rt2 (m @ p) = Some r2"
proof -
  from Akita_Add_route [OF assms] obtain rta where
    rta: "Router_Add m p (chain h1 mw1) rt = Inr rta"
    and rt1: "rt1 = rta\<lparr>routes := (routes rta)(m @ p \<mapsto> r1)\<rparr>" by blast
  from Router_Add_again [OF rta, of m "chain h2 mw2"] obtain rtb rtb' where
    b: "Router_Add m p (chain h2 mw2) rta = Inr rtb" "Router_Add m p (chain h2 mw2) rt = Inr rtb'"
       "routes rtb = routes rta" "routes rtb' = routes rt" "routes rta = routes rt"
       "tree rtb = tree rtb'" by blast
  have eq: "rtb = rtb'" using b by simp
  have "Router_Add m p (chain h2 mw2) rt1 = Inr (rtb\<lparr>routes := (routes rta)(m @ p \<mapsto> r1)\<rparr>)"
    using b(1) by (auto simp: Router_Add_def rt1 split: sum.splits)
  then show ?thesis using b eq by (simp add: Akita_Add_def Let_def)
qed

lemmas akita_eval = Akita_Add_def chain_def router_eval

text \<open>
  The theorem at the empty router, for \<open>GET /users/:id\<close> registered with the handler
  \<open>1\<close> and then with the handler \<open>2\<close>.
\<close>

theorem Akita_Add_last_write_wins_witness:
  "\<exists>r1 rt1 r2 rt2.
     Akita_Add (\<lambda>h. if h = (1::nat) then ''main.first'' else ''main.second'')
       GET ''/users/:id'' 1 [] NewRouter = Inr (r1, rt1) \<and>
     Akita_Add (\<lambda>h. if h = (1::nat) then ''main.first'' else ''main.second'')
       GET ''/users/:id'' 2 [] rt1 = Inr (r2, rt2) \<and>
     Akita_Add (\<lambda>h. if h = (1::nat) then ''main.first'' else ''main.second'')
       GET ''/users/:id'' 2 [] NewRouter = Inr (r2, rt2) \<and>
     r2 = \<lparr>Method = GET, Path = ''/users/:id'', Name = ''main.second''\<rparr> \<and>
     routes rt2 (GET @ ''/users/:id'') = Some r2"
proof -
  let ?hn = "\<lambda>h. if h = (1::nat) then ''main.first'' else ''main.second''"
  have "\<exists>r1 rt1. Akita_Add ?hn GET ''/users/:id'' 1 [] NewRouter = Inr (r1, rt1)"
    by (simp add: akita_eval GET_def)
  then obtain r1 rt1 where a: "Akita_Add ?hn GET ''/users/:id'' 1 [] NewRouter = Inr (r1, rt1)"
    by blast
  from Akita_Add_last_write_wins [OF a, of 2 "[]"] a show ?thesis by auto
qed

text \<open>
  C6. \<open>Any(p, h)\<close> registers the route for the nine methods CONNECT, DELETE, GET, HEAD,
  OPTIONS, PATCH, POST, PUT and TRACE, by one \<open>Add\<close> for each in this order, and returns
  the nine route records, each with the path \<open>p\<close> and its method; it changes the map of
  route records at these nine keys only. It returns whenever its first \<open>Add\<close> does.
\<close>

theorem Akita_Any_nine_routes:
  "(Akita_Any hn p h mw rt = Inr (rs, rt') \<longrightarrow>
      rs = map (\<lambda>m. \<lparr>Method = m, Path = p, Name = hn h\<rparr>)
             [''CONNECT'', ''DELETE'', ''GET'', ''HEAD'', ''OPTIONS'', ''PATCH'', ''POST'', ''PUT'',
              ''TRACE''] \<and>
      length rs = 9 \<and>
      (\<exists>r1 r2 r3 r4 r5 r6 r7 r8 r9 rt1 rt2 rt3 rt4 rt5 rt6 rt7 rt8.
         Akita_Add hn CONNECT p h mw rt = Inr (r1, rt1) \<and>
         Akita_Add hn DELETE p h mw rt1 = Inr (r2, rt2) \<and>
         Akita_Add hn GET p h mw rt2 = Inr (r3, rt3) \<and>
         Akita_Add hn HEAD p h mw rt3 = Inr (r4, rt4) \<and>
         Akita_Add hn OPTIONS p h mw rt4 = Inr (r5, rt5) \<and>
         Akita_Add hn PATCH p h mw rt5 = Inr (r6, rt6) \<and>
         Akita_Add hn POST p h mw rt6 = Inr (r7, rt7) \<and>
         Akita_Add hn PUT p h mw rt7 = Inr (r8, rt8) \<and>
         Akita_Add hn TRACE p h mw rt8 = Inr (r9, rt') \<and>
         rs = [r1, r2, r3, r4, r5, r6, r7, r8, r9]) \<and>
      (\<forall>k. routes rt' k =
         (if \<exists>m\<in>set methods. k = m @ p
          then Some \<lparr>Method = take (length k - length p) k, Path = p, Name = hn h\<rparr>
          else routes rt k))) \<and>
   ((\<exists>r1 rt1. Akita_Add hn CONNECT p h mw rt = Inr (r1, rt1)) \<longrightarrow>
      (\<exists>rs rt'. Akita_Any hn p h mw rt = Inr (rs, rt')))"
proof (intro conjI impI allI)
  assume a: "Akita_Any hn p h mw rt = Inr (rs, rt')"
  then have e: "add_each hn methods p h mw [] rt = Inr (rs, rt')" by (simp add: Akita_Any_def)
  from add_each_routes [OF e]
  show rs: "rs = map (\<lambda>m. \<lparr>Method = m, Path = p, Name = hn h\<rparr>)
             [''CONNECT'', ''DELETE'', ''GET'', ''HEAD'', ''OPTIONS'', ''PATCH'', ''POST'', ''PUT'',
              ''TRACE'']"
    by (simp add: methods_def CONNECT_def DELETE_def GET_def HEAD_def OPTIONS_def PATCH_def
        POST_def PUT_def TRACE_def)
  then show "length rs = 9" by simp
  from a show "\<exists>r1 r2 r3 r4 r5 r6 r7 r8 r9 rt1 rt2 rt3 rt4 rt5 rt6 rt7 rt8.
         Akita_Add hn CONNECT p h mw rt = Inr (r1, rt1) \<and>
         Akita_Add hn DELETE p h mw rt1 = Inr (r2, rt2) \<and>
         Akita_Add hn GET p h mw rt2 = Inr (r3, rt3) \<and>
         Akita_Add hn HEAD p h mw rt3 = Inr (r4, rt4) \<and>
         Akita_Add hn OPTIONS p h mw rt4 = Inr (r5, rt5) \<and>
         Akita_Add hn PATCH p h mw rt5 = Inr (r6, rt6) \<and>
         Akita_Add hn POST p h mw rt6 = Inr (r7, rt7) \<and>
         Akita_Add hn PUT p h mw rt7 = Inr (r8, rt8) \<and>
         Akita_Add hn TRACE p h mw rt8 = Inr (r9, rt') \<and>
         rs = [r1, r2, r3, r4, r5, r6, r7, r8, r9]"
    unfolding Akita_Any_def methods_def by (simp split: sum.splits prod.splits)
  fix k
  from add_each_map [OF e]
  show "routes rt' k =
         (if \<exists>m\<in>set methods. k = m @ p
          then Some \<lparr>Method = take (length k - length p) k, Path = p, Name = hn h\<rparr>
          else routes rt k)" .
next
  assume "\<exists>r1 rt1. Akita_Add hn CONNECT p h mw rt = Inr (r1, rt1)"
  then obtain r1 rt1 where a: "Akita_Add hn CONNECT p h mw rt = Inr (r1, rt1)" by blast
  from add_each_succeeds [OF a, of "tl methods" h mw "[r1]"] a
  show "\<exists>rs rt'. Akita_Any hn p h mw rt = Inr (rs, rt')"
    by (simp add: Akita_Any_def methods_def)
qed

text \<open>The theorem at the empty router and the path \<open>/\<close>, as in the test of the source.\<close>

theorem Akita_Any_nine_routes_witness:
  "\<exists>rs rt'. Akita_Any (\<lambda>h. ''main.any'') ''/'' (0::nat) [] NewRouter = Inr (rs, rt') \<and>
     map Method rs = [''CONNECT'', ''DELETE'', ''GET'', ''HEAD'', ''OPTIONS'', ''PATCH'', ''POST'',
       ''PUT'', ''TRACE''] \<and>
     set (map Path rs) = {''/''} \<and>
     routes rt' ''TRACE/'' = Some \<lparr>Method = ''TRACE'', Path = ''/'', Name = ''main.any''\<rparr> \<and>
     routes rt' ''LINK/'' = None"
proof -
  let ?hn = "\<lambda>h::nat. ''main.any''"
  have first: "\<exists>r1 rt1. Akita_Add ?hn CONNECT ''/'' 0 [] NewRouter = Inr (r1, rt1)"
    by (simp add: akita_eval CONNECT_def)
  have "(\<exists>r1 rt1. Akita_Add ?hn CONNECT ''/'' 0 [] NewRouter = Inr (r1, rt1)) \<longrightarrow>
      (\<exists>rs rt'. Akita_Any ?hn ''/'' 0 [] NewRouter = Inr (rs, rt'))"
    by (rule Akita_Any_nine_routes [THEN conjunct2])
  with first obtain rs rt' where a: "Akita_Any ?hn ''/'' 0 [] NewRouter = Inr (rs, rt')"
    by blast
  have "Akita_Any ?hn ''/'' 0 [] NewRouter = Inr (rs, rt') \<longrightarrow>
      rs = map (\<lambda>m. \<lparr>Method = m, Path = ''/'', Name = ?hn 0\<rparr>)
             [''CONNECT'', ''DELETE'', ''GET'', ''HEAD'', ''OPTIONS'', ''PATCH'', ''POST'', ''PUT'',
              ''TRACE''] \<and>
      length rs = 9 \<and>
      (\<exists>r1 r2 r3 r4 r5 r6 r7 r8 r9 rt1 rt2 rt3 rt4 rt5 rt6 rt7 rt8.
         Akita_Add ?hn CONNECT ''/'' 0 [] NewRouter = Inr (r1, rt1) \<and>
         Akita_Add ?hn DELETE ''/'' 0 [] rt1 = Inr (r2, rt2) \<and>
         Akita_Add ?hn GET ''/'' 0 [] rt2 = Inr (r3, rt3) \<and>
         Akita_Add ?hn HEAD ''/'' 0 [] rt3 = Inr (r4, rt4) \<and>
         Akita_Add ?hn OPTIONS ''/'' 0 [] rt4 = Inr (r5, rt5) \<and>
         Akita_Add ?hn PATCH ''/'' 0 [] rt5 = Inr (r6, rt6) \<and>
         Akita_Add ?hn POST ''/'' 0 [] rt6 = Inr (r7, rt7) \<and>
         Akita_Add ?hn PUT ''/'' 0 [] rt7 = Inr (r8, rt8) \<and>
         Akita_Add ?hn TRACE ''/'' 0 [] rt8 = Inr (r9, rt') \<and>
         rs = [r1, r2, r3, r4, r5, r6, r7, r8, r9]) \<and>
      (\<forall>k. routes rt' k =
         (if \<exists>m\<in>set methods. k = m @ ''/''
          then Some \<lparr>Method = take (length k - length ''/'') k, Path = ''/'', Name = ?hn 0\<rparr>
          else routes (NewRouter :: nat Router) k))"
    by (rule Akita_Any_nine_routes [THEN conjunct1])
  with a have rs: "rs = map (\<lambda>m. \<lparr>Method = m, Path = ''/'', Name = ''main.any''\<rparr>)
             [''CONNECT'', ''DELETE'', ''GET'', ''HEAD'', ''OPTIONS'', ''PATCH'', ''POST'', ''PUT'',
              ''TRACE'']"
    and k: "\<And>k. routes rt' k =
         (if \<exists>m\<in>set methods. k = m @ ''/''
          then Some \<lparr>Method = take (length k - length ''/'') k, Path = ''/'', Name = ''main.any''\<rparr>
          else routes (NewRouter :: nat Router) k)"
    by blast+
  have "routes rt' ''TRACE/'' = Some \<lparr>Method = ''TRACE'', Path = ''/'', Name = ''main.any''\<rparr>"
    by (simp add: k methods_def TRACE_def)
  moreover have "routes rt' ''LINK/'' = None"
    by (simp add: k methods_def NewRouter_def CONNECT_def DELETE_def GET_def HEAD_def OPTIONS_def
        PATCH_def POST_def PUT_def TRACE_def)
  ultimately show ?thesis using a rs by simp
qed

section \<open>Reverse routing: the record that is found\<close>

lemma find_name_path:
  assumes "r \<in> set rs" "Name r = n" "\<forall>r'\<in>set rs. Name r' = n \<longrightarrow> Path r' = Path r"
  shows "\<exists>r0. find (\<lambda>r. Name r = n) rs = Some r0 \<and> Path r0 = Path r"
proof (cases "find (\<lambda>r. Name r = n) rs")
  case None
  with assms(1,2) show ?thesis by (auto simp: find_None_iff)
next
  case (Some r0)
  then have "r0 \<in> set rs" "Name r0 = n" by (auto simp: find_Some_iff)
  with assms(3) Some show ?thesis by auto
qed

lemma ran_two: "k1 \<noteq> k2 \<Longrightarrow> ran [k1 \<mapsto> a, k2 \<mapsto> b] = {a, b}"
  by (auto simp: ran_def)

lemma Router_Add_other_routes:
  "Router_Add m p h rt = Inr rt' \<Longrightarrow> Router_Add m p h (rt\<lparr>routes := x\<rparr>) = Inr (rt'\<lparr>routes := x\<rparr>)"
  by (auto simp: Router_Add_def split: sum.splits)

lemma Akita_Add_two:
  assumes "Router_Add m1 p1 (chain h1 mw1) NewRouter = Inr rta"
    and "Router_Add m2 p2 (chain h2 mw2) rta = Inr rtb"
    and "m1 @ p1 \<noteq> m2 @ p2"
  shows "\<exists>rt1 rt2.
     Akita_Add hn m1 p1 h1 mw1 NewRouter = Inr (\<lparr>Method = m1, Path = p1, Name = hn h1\<rparr>, rt1) \<and>
     Akita_Add hn m2 p2 h2 mw2 rt1 = Inr (\<lparr>Method = m2, Path = p2, Name = hn h2\<rparr>, rt2) \<and>
     ran (routes rt2) =
       {\<lparr>Method = m1, Path = p1, Name = hn h1\<rparr>, \<lparr>Method = m2, Path = p2, Name = hn h2\<rparr>}"
proof -
  let ?a = "\<lparr>Method = m1, Path = p1, Name = hn h1\<rparr>"
  let ?b = "\<lparr>Method = m2, Path = p2, Name = hn h2\<rparr>"
  let ?rt1 = "rta\<lparr>routes := (routes rta)(m1 @ p1 \<mapsto> ?a)\<rparr>"
  let ?mid = "rtb\<lparr>routes := (routes rta)(m1 @ p1 \<mapsto> ?a)\<rparr>"
  let ?rt2 = "?mid\<lparr>routes := (routes ?mid)(m2 @ p2 \<mapsto> ?b)\<rparr>"
  have a: "Akita_Add hn m1 p1 h1 mw1 NewRouter = Inr (?a, ?rt1)"
    using assms(1) by (simp add: Akita_Add_def Let_def)
  have "Router_Add m2 p2 (chain h2 mw2) ?rt1 = Inr ?mid"
    using assms(2) by (rule Router_Add_other_routes)
  then have b: "Akita_Add hn m2 p2 h2 mw2 ?rt1 = Inr (?b, ?rt2)"
    by (simp add: Akita_Add_def Let_def)
  from Router_Add_routes [OF assms(1)] have "routes rta = Map.empty" by (simp add: NewRouter_def)
  then have "routes ?rt2 = [m1 @ p1 \<mapsto> ?a, m2 @ p2 \<mapsto> ?b]" by simp
  with ran_two [OF assms(3), of ?a ?b] have "ran (routes ?rt2) = {?a, ?b}" by (simp only:)
  with a b show ?thesis by blast
qed

text \<open>
  C5, as the claim states it, asks \<open>Reverse(n, ...)\<close> to return the pattern of every
  registered record named \<open>n\<close>. Two records can share a name: the name is the handler's,
  and one handler may serve two paths. Then \<open>Reverse\<close> returns the pattern of the record
  that the range over the map yields first, and for the other record the claim fails,
  whatever the order: here for the handler \<open>main.show\<close> registered for \<open>/users/:id\<close> and
  for \<open>/accounts/:id\<close>.
\<close>

theorem Reverse_shared_name_counterexample:
  "\<exists>a rt1 b rt2.
     Akita_Add (\<lambda>h. ''main.show'') GET ''/users/:id'' (0::nat) [] NewRouter = Inr (a, rt1) \<and>
     Akita_Add (\<lambda>h. ''main.show'') GET ''/accounts/:id'' (0::nat) [] rt1 = Inr (b, rt2) \<and>
     ran (routes rt2) = {a, b} \<and> Name a = ''main.show'' \<and> Name b = ''main.show'' \<and>
     (\<forall>rs. yields rt2 rs \<longrightarrow>
        \<not> (\<forall>r\<in>ran (routes rt2). Name r = ''main.show'' \<longrightarrow>
             Reverse (\<lambda>v. v) rs ''main.show'' [''7''] = fill (\<lambda>v. v) (pieces (Path r)) [''7'']))"
proof -
  let ?hn = "\<lambda>h::nat. ''main.show''"
  let ?a = "\<lparr>Method = GET, Path = ''/users/:id'', Name = ''main.show''\<rparr>"
  let ?b = "\<lparr>Method = GET, Path = ''/accounts/:id'', Name = ''main.show''\<rparr>"
  have "\<exists>rta. Router_Add GET ''/users/:id'' (chain (0::nat) []) NewRouter = Inr rta \<and>
      (\<exists>rtb. Router_Add GET ''/accounts/:id'' (chain (0::nat) []) rta = Inr rtb)"
    by (simp add: router_eval chain_def GET_def)
  then obtain rta rtb where r: "Router_Add GET ''/users/:id'' (chain (0::nat) []) NewRouter = Inr rta"
    "Router_Add GET ''/accounts/:id'' (chain (0::nat) []) rta = Inr rtb" by blast
  have ne: "GET @ ''/users/:id'' \<noteq> GET @ ''/accounts/:id''" by simp
  from Akita_Add_two [OF r ne, of ?hn] obtain rt1 rt2 where
    a: "Akita_Add ?hn GET ''/users/:id'' 0 [] NewRouter = Inr (?a, rt1)" and
    b: "Akita_Add ?hn GET ''/accounts/:id'' 0 [] rt1 = Inr (?b, rt2)" and
    ran: "ran (routes rt2) = {?a, ?b}" by auto
  have fa: "fill (\<lambda>v. v) (pieces (Path ?a)) [''7''] = ''/users/7''" by simp
  have fb: "fill (\<lambda>v. v) (pieces (Path ?b)) [''7''] = ''/accounts/7''" by simp
  have ina: "?a \<in> ran (routes rt2)" and inb: "?b \<in> ran (routes rt2)"
    unfolding ran by simp_all
  have no: "\<not> (\<forall>r\<in>ran (routes rt2). Name r = ''main.show'' \<longrightarrow>
             Reverse (\<lambda>v. v) rs ''main.show'' [''7''] = fill (\<lambda>v. v) (pieces (Path r)) [''7''])" for rs
  proof
    assume h: "\<forall>r\<in>ran (routes rt2). Name r = ''main.show'' \<longrightarrow>
             Reverse (\<lambda>v. v) rs ''main.show'' [''7''] = fill (\<lambda>v. v) (pieces (Path r)) [''7'']"
    from h ina have "Name ?a = ''main.show'' \<longrightarrow>
        Reverse (\<lambda>v. v) rs ''main.show'' [''7''] = fill (\<lambda>v. v) (pieces (Path ?a)) [''7'']"
      by (rule bspec)
    then have "Reverse (\<lambda>v. v) rs ''main.show'' [''7''] = fill (\<lambda>v. v) (pieces (Path ?a)) [''7'']"
      by simp
    then have e1: "Reverse (\<lambda>v. v) rs ''main.show'' [''7''] = ''/users/7''"
      by (simp only: fa)
    from h inb have "Name ?b = ''main.show'' \<longrightarrow>
        Reverse (\<lambda>v. v) rs ''main.show'' [''7''] = fill (\<lambda>v. v) (pieces (Path ?b)) [''7'']"
      by (rule bspec)
    then have "Reverse (\<lambda>v. v) rs ''main.show'' [''7''] = fill (\<lambda>v. v) (pieces (Path ?b)) [''7'']"
      by simp
    then have e2: "Reverse (\<lambda>v. v) rs ''main.show'' [''7''] = ''/accounts/7''"
      by (simp only: fb)
    from e1 e2 have "''/users/7'' = ''/accounts/7''" by (rule trans [OF sym])
    then show False by simp
  qed
  have names: "Name ?a = ''main.show''" "Name ?b = ''main.show''" by simp_all
  from a b ran names no show ?thesis
    by (intro exI [of _ ?a] exI [of _ rt1] exI [of _ ?b] exI [of _ rt2] conjI allI impI)
qed

text \<open>
  C5, amended. Let \<open>rs\<close> be the records of the router in the order of the range. When
  a registered record \<open>r\<close> has the name \<open>n\<close> and every registered record of that name
  has the path of \<open>r\<close> (so when one record has the name), \<open>Reverse(n, v1, ..., vk)\<close> is the
  pattern of \<open>r\<close> with its first \<open>:name\<close> segments replaced by the values supplied, each
  formatted with \<open>%v\<close>, and every other byte, \<open>*\<close> and \<open>/\<close> among them, as it stands.
  When no registered record has the name \<open>n\<close> it is the empty string.
\<close>

theorem Reverse_unambiguous_name:
  assumes "yields rt rs"
  shows "(r \<in> ran (routes rt) \<and> Name r = n \<and>
            (\<forall>r'\<in>ran (routes rt). Name r' = n \<longrightarrow> Path r' = Path r)
          \<longrightarrow> Reverse sprint rs n vs = fill sprint (pieces (Path r)) vs) \<and>
         ((\<forall>r'\<in>ran (routes rt). Name r' \<noteq> n) \<longrightarrow> Reverse sprint rs n vs = [])"
proof -
  from assms have eq: "ran (routes rt) = set rs" by (simp add: yields_def)
  show ?thesis unfolding eq
  proof (intro conjI impI)
    assume h: "r \<in> set rs \<and> Name r = n \<and> (\<forall>r'\<in>set rs. Name r' = n \<longrightarrow> Path r' = Path r)"
    then have "r \<in> set rs" "Name r = n" "\<forall>r'\<in>set rs. Name r' = n \<longrightarrow> Path r' = Path r"
      by blast+
    from find_name_path [OF this] obtain r0 where
      "find (\<lambda>r. Name r = n) rs = Some r0" "Path r0 = Path r" by blast
    then show "Reverse sprint rs n vs = fill sprint (pieces (Path r)) vs"
      by (simp add: Reverse_def write_uri_fill)
  next
    assume "\<forall>r'\<in>set rs. Name r' \<noteq> n"
    then have "find (\<lambda>r. Name r = n) rs = None"
      by (simp add: find_None_iff)
    then show "Reverse sprint rs n vs = []" by (simp add: Reverse_def)
  qed
qed

text \<open>
  The theorem at the router of the source's test for \<open>URL\<close>, with the routes
  \<open>/static/file\<close> and \<open>/group/users/:uid/files/:fid\<close> of two handlers: one value fills
  the first segment, two values fill both, and an unknown name gives the empty string.
\<close>

theorem Reverse_unambiguous_name_witness:
  "\<exists>a rt1 b rt2.
     Akita_Add (\<lambda>h. if h = (0::nat) then ''main.static'' else ''main.getFile'')
        GET ''/static/file'' 0 [] NewRouter = Inr (a, rt1) \<and>
     Akita_Add (\<lambda>h. if h = (0::nat) then ''main.static'' else ''main.getFile'')
        GET ''/group/users/:uid/files/:fid'' 1 [] rt1 = Inr (b, rt2) \<and>
     yields rt2 [a, b] \<and>
     Reverse (\<lambda>v. v) [a, b] ''main.getFile'' [''1''] = ''/group/users/1/files/:fid'' \<and>
     Reverse (\<lambda>v. v) [a, b] ''main.getFile'' [''1'', ''2''] = ''/group/users/1/files/2'' \<and>
     Reverse (\<lambda>v. v) [a, b] ''main.static'' [''1''] = ''/static/file'' \<and>
     Reverse (\<lambda>v. v) [a, b] ''main.other'' [''1''] = []"
proof -
  let ?hn = "\<lambda>h. if h = (0::nat) then ''main.static'' else ''main.getFile''"
  let ?a = "\<lparr>Method = GET, Path = ''/static/file'', Name = ''main.static''\<rparr>"
  let ?b = "\<lparr>Method = GET, Path = ''/group/users/:uid/files/:fid'', Name = ''main.getFile''\<rparr>"
  have "\<exists>rta. Router_Add GET ''/static/file'' (chain (0::nat) []) NewRouter = Inr rta \<and>
      (\<exists>rtb. Router_Add GET ''/group/users/:uid/files/:fid'' (chain (1::nat) []) rta = Inr rtb)"
    by (simp add: router_eval chain_def GET_def)
  then obtain rta rtb where r: "Router_Add GET ''/static/file'' (chain (0::nat) []) NewRouter = Inr rta"
    "Router_Add GET ''/group/users/:uid/files/:fid'' (chain (1::nat) []) rta = Inr rtb" by blast
  have ne: "GET @ ''/static/file'' \<noteq> GET @ ''/group/users/:uid/files/:fid''" by simp
  from Akita_Add_two [OF r ne, of ?hn] obtain rt1 rt2 where
    a: "Akita_Add ?hn GET ''/static/file'' 0 [] NewRouter = Inr (?a, rt1)" and
    b: "Akita_Add ?hn GET ''/group/users/:uid/files/:fid'' 1 [] rt1 = Inr (?b, rt2)" and
    ran: "ran (routes rt2) = {?a, ?b}" by auto
  then have y: "yields rt2 [?a, ?b]" by (simp add: yields_def)
  note at = Reverse_unambiguous_name [OF y, where sprint = "\<lambda>v. v"]
  have 1: "Reverse (\<lambda>v. v) [?a, ?b] ''main.getFile'' [''1''] = fill (\<lambda>v. v) (pieces (Path ?b)) [''1'']"
    using at [of ?b "''main.getFile''" "[''1'']", THEN conjunct1] ran by simp
  have 2: "Reverse (\<lambda>v. v) [?a, ?b] ''main.getFile'' [''1'', ''2''] = fill (\<lambda>v. v) (pieces (Path ?b)) [''1'', ''2'']"
    using at [of ?b "''main.getFile''" "[''1'', ''2'']", THEN conjunct1] ran by simp
  have 3: "Reverse (\<lambda>v. v) [?a, ?b] ''main.static'' [''1''] = fill (\<lambda>v. v) (pieces (Path ?a)) [''1'']"
    using at [of ?a "''main.static''" "[''1'']", THEN conjunct1] ran by simp
  have 4: "Reverse (\<lambda>v. v) [?a, ?b] ''main.other'' [''1''] = []"
    using at [of ?a "''main.other''" "[''1'']", THEN conjunct2] ran by simp
  from a b y 1 2 3 4 show ?thesis by (intro exI [of _ ?a] exI [of _ rt1] exI [of _ ?b] exI [of _ rt2]) simp
qed

section \<open>Static files: the name that is served\<close>





























lemma ends_or_slash_append [simp]: "ends_or_slash (cs @ CHR ''/'' # ys) = ends_or_slash cs"
  by (cases cs) (simp_all add: ends_or_slash_def)

lemma dot_element_append [simp]: "dot_element c (cs @ CHR ''/'' # ys) = dot_element c cs"
  by (simp add: dot_element_def)

lemma dotdot_element_append [simp]: "dotdot_element c (cs @ CHR ''/'' # ys) = dotdot_element c cs"
  by (cases cs) (simp_all add: dotdot_element_def)

lemma takeWhile_before_slash [simp]:
  "takeWhile (\<lambda>x. x \<noteq> CHR ''/'') (cs @ CHR ''/'' # ys) = takeWhile (\<lambda>x. x \<noteq> CHR ''/'') cs"
  by (induction cs) simp_all

lemma dropWhile_before_slash [simp]:
  "dropWhile (\<lambda>x. x \<noteq> CHR ''/'') (cs @ CHR ''/'' # ys) = dropWhile (\<lambda>x. x \<noteq> CHR ''/'') cs @ CHR ''/'' # ys"
  by (induction cs) simp_all















lemma char_of_92: "char_of (92::nat) = CHR 0x5C"
  by code_simp

text \<open>
  \<open>path.Clean\<close> knows the separator \<open>/\<close> only, on every system: a backslash in the
  captured value is a byte of a path element like any other, and a decoded value
  made of \<open>..\<close>, a backslash, \<open>..\<close>, a backslash and \<open>x\<close> goes through \<open>path.Clean\<close>
  unchanged. In the build for Unix that is one
  plain element, the name of a file in \<open>root\<close>. In the build for Windows
  \<open>filepath.Join\<close> would read it as three elements; this is why the containment below
  is stated for the build for Unix and for no other.
\<close>

lemma Clean_keeps_backslash:
  "Clean (''/'' @ ''..'' @ [CHR 0x5C] @ ''..'' @ [CHR 0x5C] @ ''x'') =
     ''/..'' @ [CHR 0x5C] @ ''..'' @ [CHR 0x5C] @ ''x'' \<and>
   plain (''..'' @ [CHR 0x5C] @ ''..'' @ [CHR 0x5C] @ ''x'') \<and>
   static_h ''public'' \<lparr>request = None, response = (), path = ''/static/*'', pnames = [''*''],
       pvalues = Slice [''..%5c..%5cx''] [], query = None,
       handler = (NotFoundHandler :: unit HandlerFunc), store = None\<rparr> =
     Inr (''public/..'' @ [CHR 0x5C] @ ''..'' @ [CHR 0x5C] @ ''x'')"
  by (simp add: static_h_def Param_def Join_def Separator_def Clean_def ishex_def unhex_def
      plain_def dot_element_def dotdot_element_def ends_or_slash_def char_of_92)




end
